theory Spec2Isabelle
  imports Complex_Main "HOL-Library.Multiset"
begin

section \<open>Errors\<close>

text \<open>
  The C++ code has no exceptions of its own. What can go wrong is a failing
  \<^verbatim>\<open>assert\<close>, an index outside a \<^verbatim>\<open>std::vector\<close>, a null pointer that is
  dereferenced and a signed integer that overflows. Each of them is a value of
  the type \<open>error\<close>; a function that can fail returns \<open>error + 'a\<close>.
\<close>

datatype error = AssertionFailure | OutOfBounds | NullPointer | SignedOverflow

section \<open>ScaledValue (src/maths/ScaledValue.hpp)\<close>

text \<open>
  A \<^verbatim>\<open>double\<close> is modelled by a real number: the finite doubles are reals,
  and \<^verbatim>\<open>==\<close>, \<^verbatim>\<open><\<close> and \<^verbatim>\<open><=\<close> on them are the comparisons of the reals.
  The product of \<^verbatim>\<open>scale()\<close> is a product of a value below \<open>2\<^sup>-\<^sup>2\<^sup>5\<^sup>6\<close> with the
  power of two \<open>2\<^sup>2\<^sup>5\<^sup>6\<close>, which the doubles compute without rounding. The
  difference of two doubles is rounded, so the subtraction of \<^verbatim>\<open>operator-\<close> is not
  the subtraction of the reals: it is a parameter of the model. The field
  \<^verbatim>\<open>value\<close> is called \<open>val\<close>. The field \<^verbatim>\<open>scaler\<close> is a C++ \<^verbatim>\<open>int\<close>, modelled by an
  integer; adding one to \<^verbatim>\<open>INT_MAX\<close> is the error \<open>SignedOverflow\<close>.
\<close>

definition JS_SCALE_FACTOR :: real where
  "JS_SCALE_FACTOR = 2 ^ 256"

definition JS_SCALE_THRESHOLD :: real where
  "JS_SCALE_THRESHOLD = 1 / JS_SCALE_FACTOR"

definition INT_MAX :: int where
  "INT_MAX = 2147483647"

definition NULL_SCALER :: int where
  "NULL_SCALER = INT_MAX div 2 - 1"

record ScaledValue =
  val :: real
  scaler :: int

text \<open>The three constructors.\<close>

definition ScaledValue_null :: ScaledValue where
  "ScaledValue_null = \<lparr>val = 0, scaler = NULL_SCALER\<rparr>"

definition ScaledValue_of :: "real \<Rightarrow> ScaledValue" where
  "ScaledValue_of v = \<lparr>val = v, scaler = 0\<rparr>"

definition ScaledValue_mk :: "real \<Rightarrow> int \<Rightarrow> ScaledValue" where
  "ScaledValue_mk v s = \<lparr>val = v, scaler = s\<rparr>"

definition isNull :: "ScaledValue \<Rightarrow> bool" where
  "isNull a = (val a = 0)"

definition checkNull :: "ScaledValue \<Rightarrow> ScaledValue" where
  "checkNull a = (if val a = 0 then a\<lparr>scaler := NULL_SCALER\<rparr> else a)"

text \<open>
  \<^verbatim>\<open>scale()\<close>: one rescaling step. The statements run in the order of the
  source: the scaler is incremented, the value is multiplied, then
  \<^verbatim>\<open>checkNull()\<close>.
\<close>

definition scale :: "ScaledValue \<Rightarrow> error + ScaledValue" where
  "scale a =
     (if val a < JS_SCALE_THRESHOLD then
        (if scaler a = INT_MAX then Inl SignedOverflow
         else Inr (checkNull (a\<lparr>scaler := scaler a + 1, val := val a * JS_SCALE_FACTOR\<rparr>)))
      else Inr a)"

text \<open>\<^verbatim>\<open>operator<\<close>, \<^verbatim>\<open>operator<=\<close>, \<^verbatim>\<open>operator>\<close> and \<^verbatim>\<open>operator>=\<close>; the left operand
  is \<^verbatim>\<open>*this\<close>.\<close>

definition sv_less :: "ScaledValue \<Rightarrow> ScaledValue \<Rightarrow> bool" where
  "sv_less a v =
     (if isNull a then \<not> isNull v
      else if scaler a \<noteq> scaler v then scaler a > scaler v
      else val a < val v)"

definition sv_less_eq :: "ScaledValue \<Rightarrow> ScaledValue \<Rightarrow> bool" where
  "sv_less_eq a v =
     (if isNull a then True
      else if scaler a \<noteq> scaler v then scaler a > scaler v
      else val a \<le> val v)"

definition sv_greater :: "ScaledValue \<Rightarrow> ScaledValue \<Rightarrow> bool" where
  "sv_greater a v = (\<not> sv_less_eq a v)"

definition sv_greater_eq :: "ScaledValue \<Rightarrow> ScaledValue \<Rightarrow> bool" where
  "sv_greater_eq a v = (\<not> sv_less a v)"

text \<open>
  The literal \<^verbatim>\<open>0.0000000001\<close> of \<^verbatim>\<open>operator-\<close> is a double: the double nearest to
  \<open>10\<^sup>-\<^sup>1\<^sup>0\<close>, which is \<open>7737125245533627 / 2\<^sup>8\<^sup>6\<close> (hexadecimal
  \<^verbatim>\<open>0x1.b7cdfd9d7bdbbp-34\<close>), a little above \<open>10\<^sup>-\<^sup>1\<^sup>0\<close>.
\<close>

definition subtraction_tolerance :: real where
  "subtraction_tolerance = 7737125245533627 / 2 ^ 86"

text \<open>
  \<^verbatim>\<open>operator-\<close>. \<open>dsub x y\<close> is the double that the machine computes for
  \<^verbatim>\<open>x - y\<close> (the rounded difference); the source computes \<^verbatim>\<open>value - v.value\<close>
  at each use, with the same result every time. With equal scalers a negative
  computed difference smaller than \<^verbatim>\<open>0.0000000001\<close> in absolute value gives the
  null value; any other negative computed difference reaches
  \<^verbatim>\<open>assert(value - v.value >= 0)\<close>, which fails. With a smaller right scaler the
  code reaches \<^verbatim>\<open>assert(false)\<close>.
\<close>

definition sv_minus ::
  "(real \<Rightarrow> real \<Rightarrow> real) \<Rightarrow> ScaledValue \<Rightarrow> ScaledValue \<Rightarrow> error + ScaledValue" where
  "sv_minus dsub a v =
     (if scaler v = scaler a then
        (if dsub (val a) (val v) < 0 \<and> \<bar>dsub (val a) (val v)\<bar> < subtraction_tolerance
         then Inr ScaledValue_null
         else if \<not> (dsub (val a) (val v) \<ge> 0) then Inl AssertionFailure
         else scale (ScaledValue_mk (dsub (val a) (val v)) (scaler a)))
      else if scaler v < scaler a then Inl AssertionFailure
      else Inr a)"

section \<open>The rooted tree\<close>

text \<open>
  Modelled from the spec: the class \<^verbatim>\<open>PLLRootedTree\<close> and the node type
  \<^verbatim>\<open>corax_rnode_t\<close> are not among the sources. The specification (section 3)
  gives every node a stable index in \<open>[0, N)\<close>, a parent pointer (nil at the
  root) and left and right child pointers (both nil at a leaf). A pointer to a
  node is modelled by the index of the node, which is its position in the node
  array of the tree: \<^verbatim>\<open>node->node_index\<close> is the pointer itself and
  \<^verbatim>\<open>getNode(i)\<close> is the \<open>i\<close>-th node. A nil pointer is \<open>None\<close>.
\<close>

record rnode =
  parent :: "nat option"
  left :: "nat option"
  right :: "nat option"

record PLLRootedTree =
  tree_nodes :: "rnode list"
  tree_root :: nat

definition getNodeNumber :: "PLLRootedTree \<Rightarrow> nat" where
  "getNodeNumber T = length (tree_nodes T)"

definition getInnerNodeNumber :: "PLLRootedTree \<Rightarrow> nat" where
  "getInnerNodeNumber T = length (filter (\<lambda>n. left n \<noteq> None) (tree_nodes T))"

definition getRoot :: "PLLRootedTree \<Rightarrow> nat" where
  "getRoot T = tree_root T"

text \<open>\<open>node T p\<close> is the node that the pointer \<open>p\<close> points to.\<close>

definition node :: "PLLRootedTree \<Rightarrow> nat \<Rightarrow> rnode" where
  "node T p = tree_nodes T ! p"

text \<open>
  \<open>subtree ns n xs\<close>: the nodes reachable from \<open>n\<close> over the child pointers form
  a binary tree whose nodes, in preorder, are \<open>xs\<close>; every child points back to
  its parent.
\<close>

inductive subtree :: "rnode list \<Rightarrow> nat \<Rightarrow> nat list \<Rightarrow> bool" for ns where
  leaf: "n < length ns \<Longrightarrow> left (ns ! n) = None \<Longrightarrow> right (ns ! n) = None
    \<Longrightarrow> subtree ns n [n]"
| inner: "n < length ns \<Longrightarrow> left (ns ! n) = Some l \<Longrightarrow> right (ns ! n) = Some r
    \<Longrightarrow> parent (ns ! l) = Some n \<Longrightarrow> parent (ns ! r) = Some n
    \<Longrightarrow> subtree ns l ls \<Longrightarrow> subtree ns r rs \<Longrightarrow> subtree ns n (n # ls @ rs)"

text \<open>
  A well-formed rooted binary tree: the root has no parent, and the tree below
  the root holds every node of the node array exactly once. A node index is an
  \<^verbatim>\<open>unsigned int\<close>, so there are at most \<open>2\<^sup>3\<^sup>2\<close> nodes.
\<close>

definition wf_tree :: "PLLRootedTree \<Rightarrow> bool" where
  "wf_tree T \<longleftrightarrow>
     tree_root T < length (tree_nodes T) \<and> length (tree_nodes T) \<le> 2 ^ 32 \<and>
     parent (node T (tree_root T)) = None \<and>
     (\<exists>xs. subtree (tree_nodes T) (tree_root T) xs \<and> distinct xs \<and>
        set xs = {..<length (tree_nodes T)})"

section \<open>DatedTree (src/trees/DatedTree.hpp, src/trees/DatedTree.cpp)\<close>

text \<open>
  The members \<^verbatim>\<open>_fromBL\<close>, \<^verbatim>\<open>_rootedTree\<close>, \<^verbatim>\<open>_orderedSpeciations\<close> and \<^verbatim>\<open>_ranks\<close>.
  A rank is an \<^verbatim>\<open>unsigned int\<close>, modelled by a natural number with the
  wrap-around at \<open>2\<^sup>3\<^sup>2\<close> written out; \<^verbatim>\<open>size()\<close> is a 64-bit \<^verbatim>\<open>size_t\<close>.
\<close>

record DatedTree =
  fromBL :: bool
  rootedTree :: PLLRootedTree
  orderedSpeciations :: "nat list"
  ranks :: "nat list"

definition isDated :: "DatedTree \<Rightarrow> bool" where
  "isDated t = fromBL t"

definition getBackup :: "DatedTree \<Rightarrow> nat list" where
  "getBackup t = ranks t"

text \<open>
  \<^verbatim>\<open>moveDown(rank)\<close>. The test \<^verbatim>\<open>rank > _orderedSpeciations.size() - 2\<close> is made
  in \<^verbatim>\<open>size_t\<close>, \<^verbatim>\<open>rank + 1\<close> is computed in \<^verbatim>\<open>unsigned int\<close>. Both nodes are read
  before the test on their children. The four assignments run in the order of
  the source.
\<close>

definition moveDown :: "DatedTree \<Rightarrow> nat \<Rightarrow> error + (bool \<times> DatedTree)" where
  "moveDown t rank =
     (if \<not> fromBL t then Inl AssertionFailure
      else if rank > (length (orderedSpeciations t) + 2 ^ 64 - 2) mod 2 ^ 64
        then Inr (False, t)
      else if \<not> rank < length (orderedSpeciations t)
          \<or> \<not> (rank + 1) mod 2 ^ 32 < length (orderedSpeciations t)
        then Inl OutOfBounds
      else
        let n1 = orderedSpeciations t ! rank;
            n2 = orderedSpeciations t ! ((rank + 1) mod 2 ^ 32)
        in if left (node (rootedTree t) n1) = None \<or> left (node (rootedTree t) n2) = None
              \<or> parent (node (rootedTree t) n2) = Some n1
           then Inr (False, t)
           else
             let os1 = (orderedSpeciations t)[(rank + 1) mod 2 ^ 32 := n1];
                 os2 = os1[rank := n2]
             in if \<not> n1 < length (ranks t) then Inl OutOfBounds
                else
                  let r1 = (ranks t)[n1 := (ranks t ! n1 + 1) mod 2 ^ 32]
                  in if \<not> n2 < length r1 then Inl OutOfBounds
                     else
                       let r2 = r1[n2 := (r1 ! n2 + 2 ^ 32 - 1) mod 2 ^ 32]
                       in Inr (True, t\<lparr>orderedSpeciations := os2, ranks := r2\<rparr>))"

definition moveUp :: "DatedTree \<Rightarrow> nat \<Rightarrow> error + (bool \<times> DatedTree)" where
  "moveUp t rank =
     (if \<not> fromBL t then Inl AssertionFailure
      else if rank = 0 then Inr (False, t)
      else moveDown t (rank - 1))"

text \<open>
  \<^verbatim>\<open>restore(backup)\<close>: the ranks become the backup; the loop runs over a copy of
  \<^verbatim>\<open>_orderedSpeciations\<close> and writes every node at its rank.
\<close>

fun restore_loop :: "nat list \<Rightarrow> nat list \<Rightarrow> nat list \<Rightarrow> error + nat list" where
  "restore_loop rk [] os = Inr os"
| "restore_loop rk (n # speciations) os =
     (if \<not> n < length rk then Inl OutOfBounds
      else if \<not> rk ! n < length os then Inl OutOfBounds
      else restore_loop rk speciations (os[rk ! n := n]))"

definition restore :: "DatedTree \<Rightarrow> nat list \<Rightarrow> error + DatedTree" where
  "restore t backup =
     (case restore_loop backup (orderedSpeciations t) (orderedSpeciations t) of
        Inl e \<Rightarrow> Inl e
      | Inr os \<Rightarrow> Inr (t\<lparr>ranks := backup, orderedSpeciations := os\<rparr>))"

text \<open>
  \<^verbatim>\<open>canTransferUnderRelDated(e, d)\<close>. \<^verbatim>\<open>getNode(e)\<close> reads the node array of the
  tree at \<open>e\<close>.
\<close>

definition canTransferUnderRelDated :: "DatedTree \<Rightarrow> nat \<Rightarrow> nat \<Rightarrow> error + bool" where
  "canTransferUnderRelDated t e d =
     (if d = e then Inr False
      else if \<not> e < getNodeNumber (rootedTree t) then Inl OutOfBounds
      else case parent (node (rootedTree t) e) of
             None \<Rightarrow> Inr True
           | Some p \<Rightarrow>
               if \<not> d < length (ranks t) \<or> \<not> p < length (ranks t) then Inl OutOfBounds
               else Inr (ranks t ! d > ranks t ! p))"

text \<open>
  \<^verbatim>\<open>randomize()\<close>. The random number service is not among the sources:
  \<open>rng k\<close> is the value of the \<open>k\<close>-th call of \<^verbatim>\<open>Random::getInt()\<close>, as the unsigned
  number that \<^verbatim>\<open>%\<close> sees. \<^verbatim>\<open>toAdd\<close> holds pointers that may be nil (the right
  child is pushed unread). The loop state is the number of draws made,
  \<^verbatim>\<open>toAdd\<close>, \<^verbatim>\<open>currentRank\<close>, \<^verbatim>\<open>_orderedSpeciations\<close> and \<^verbatim>\<open>_ranks\<close>. The loop has no
  bound of its own, so not returning is the value \<open>None\<close>.
\<close>

partial_function (option) randomize_loop ::
  "PLLRootedTree \<Rightarrow> (nat \<Rightarrow> nat) \<Rightarrow> nat \<Rightarrow> nat option list \<Rightarrow> nat \<Rightarrow> nat list \<Rightarrow> nat list
     \<Rightarrow> (error + nat list \<times> nat list) option" where
  "randomize_loop T rng k toAdd currentRank os rk =
     (if toAdd = [] then Some (Inr (os, rk))
      else
        let i = rng k mod length toAdd
        in case toAdd ! i of
             None \<Rightarrow> Some (Inl NullPointer)
           | Some n \<Rightarrow>
               (case left (node T n) of
                  Some l \<Rightarrow>
                    if \<not> currentRank < length os then Some (Inl OutOfBounds)
                    else if \<not> n < length rk then Some (Inl OutOfBounds)
                    else randomize_loop T rng (k + 1) (toAdd[i := Some l] @ [right (node T n)])
                           ((currentRank + 1) mod 2 ^ 32) (os[currentRank := n])
                           (rk[n := currentRank])
                | None \<Rightarrow>
                    randomize_loop T rng (k + 1) (butlast (toAdd[i := last toAdd]))
                      currentRank os rk))"

definition randomize :: "(nat \<Rightarrow> nat) \<Rightarrow> DatedTree \<Rightarrow> (error + DatedTree) option" where
  "randomize rng t =
     (if \<not> fromBL t then Some (Inl AssertionFailure)
      else case randomize_loop (rootedTree t) rng 0 [Some (getRoot (rootedTree t))] 0
                  (orderedSpeciations t) (ranks t) of
             None \<Rightarrow> None
           | Some (Inl e) \<Rightarrow> Some (Inl e)
           | Some (Inr (os, rk)) \<Rightarrow> Some (Inr (t\<lparr>orderedSpeciations := os, ranks := rk\<rparr>)))"

text \<open>
  The invariants of the data model (specification, section 3). In both modes:
  the tree is well formed, both vectors have one entry for every node,
  \<^verbatim>\<open>orderedSpeciations[ranks[n]] == n\<close> for every node \<open>n\<close>, and a parent has a
  lower rank than its child. In dated mode moreover the internal nodes come
  first in \<^verbatim>\<open>orderedSpeciations\<close>, and the root is an internal node (the
  constructor reads \<^verbatim>\<open>leaf->parent->node_index\<close> for every leaf when it rescales
  the branch lengths in dated mode, so a leaf is never the root there).
\<close>

definition DatedTree_inv :: "DatedTree \<Rightarrow> bool" where
  "DatedTree_inv t \<longleftrightarrow>
     wf_tree (rootedTree t) \<and>
     length (orderedSpeciations t) = getNodeNumber (rootedTree t) \<and>
     length (ranks t) = getNodeNumber (rootedTree t) \<and>
     (\<forall>n < getNodeNumber (rootedTree t).
        ranks t ! n < getNodeNumber (rootedTree t) \<and> orderedSpeciations t ! (ranks t ! n) = n) \<and>
     (\<forall>c < getNodeNumber (rootedTree t). \<forall>p.
        parent (node (rootedTree t) c) = Some p \<longrightarrow> ranks t ! p < ranks t ! c) \<and>
     (fromBL t \<longrightarrow>
        left (node (rootedTree t) (getRoot (rootedTree t))) \<noteq> None \<and>
        (\<forall>k < getNodeNumber (rootedTree t).
           (left (node (rootedTree t) (orderedSpeciations t ! k)) \<noteq> None)
             = (k < getInnerNodeNumber (rootedTree t))))"

text \<open>
  Two abbreviations for the statements below (they are not in the source):
  \<open>can_swap t r\<close> is the condition under which \<^verbatim>\<open>moveDown(r)\<close> passes all its tests
  on a tree with at least two nodes, and \<open>swap_ranks t r\<close> is the tree after the
  four assignments, with the nodes at the ranks \<open>r\<close> and \<open>r + 1\<close> exchanged.
\<close>

definition swap_ranks :: "DatedTree \<Rightarrow> nat \<Rightarrow> DatedTree" where
  "swap_ranks t r =
     t\<lparr>orderedSpeciations :=
         ((orderedSpeciations t)[r + 1 := orderedSpeciations t ! r])
           [r := orderedSpeciations t ! (r + 1)],
       ranks := ((ranks t)[orderedSpeciations t ! r := r + 1])
           [orderedSpeciations t ! (r + 1) := r]\<rparr>"

definition can_swap :: "DatedTree \<Rightarrow> nat \<Rightarrow> bool" where
  "can_swap t r \<longleftrightarrow>
     r + 2 \<le> getNodeNumber (rootedTree t) \<and>
     left (node (rootedTree t) (orderedSpeciations t ! r)) \<noteq> None \<and>
     left (node (rootedTree t) (orderedSpeciations t ! (r + 1))) \<noteq> None \<and>
     parent (node (rootedTree t) (orderedSpeciations t ! (r + 1)))
       \<noteq> Some (orderedSpeciations t ! r)"

text \<open>
  A sequence of calls of \<^verbatim>\<open>moveUp\<close> and \<^verbatim>\<open>moveDown\<close> on one tree. \<open>do_moves\<close> runs
  the calls in order, whatever each call returns, and stops at the first error.
\<close>

datatype move = MoveUp nat | MoveDown nat

fun do_move :: "DatedTree \<Rightarrow> move \<Rightarrow> error + (bool \<times> DatedTree)" where
  "do_move t (MoveUp rank) = moveUp t rank"
| "do_move t (MoveDown rank) = moveDown t rank"

fun do_moves :: "DatedTree \<Rightarrow> move list \<Rightarrow> error + DatedTree" where
  "do_moves t [] = Inr t"
| "do_moves t (m # ms) =
     (case do_move t m of Inl e \<Rightarrow> Inl e | Inr (b, t') \<Rightarrow> do_moves t' ms)"

text \<open>
  A sequence of mutations of one tree: calls of \<^verbatim>\<open>moveUp\<close>, \<^verbatim>\<open>moveDown\<close> and
  \<^verbatim>\<open>randomize\<close>, each call of \<^verbatim>\<open>randomize\<close> with the random numbers it draws.
\<close>

datatype mutation = Move move | Randomize "nat \<Rightarrow> nat"

fun mutate :: "DatedTree \<Rightarrow> mutation \<Rightarrow> (error + DatedTree) option" where
  "mutate t (Move m) = Some (case do_move t m of Inl e \<Rightarrow> Inl e | Inr (b, t') \<Rightarrow> Inr t')"
| "mutate t (Randomize rng) = randomize rng t"

fun mutations :: "DatedTree \<Rightarrow> mutation list \<Rightarrow> (error + DatedTree) option" where
  "mutations t [] = Some (Inr t)"
| "mutations t (m # ms) =
     (case mutate t m of
        None \<Rightarrow> None
      | Some (Inl e) \<Rightarrow> Some (Inl e)
      | Some (Inr t') \<Rightarrow> mutations t' ms)"

text \<open>
  The tree \<^verbatim>\<open>((A,B),(C,D))\<close> of the scenarios S1 and S2 of the specification: the
  leaves \<open>A\<close>, \<open>B\<close>, \<open>C\<close>, \<open>D\<close> are the nodes 0 to 3, the left and the right
  internal node are 4 and 5, the root is 6. In dated mode the root has rank 0,
  the left internal node rank 1 and the right one rank 2.
\<close>

definition example_tree :: PLLRootedTree where
  "example_tree =
     \<lparr>tree_nodes =
        [\<lparr>parent = Some 4, left = None, right = None\<rparr>,
         \<lparr>parent = Some 4, left = None, right = None\<rparr>,
         \<lparr>parent = Some 5, left = None, right = None\<rparr>,
         \<lparr>parent = Some 5, left = None, right = None\<rparr>,
         \<lparr>parent = Some 6, left = Some 0, right = Some 1\<rparr>,
         \<lparr>parent = Some 6, left = Some 2, right = Some 3\<rparr>,
         \<lparr>parent = None, left = Some 4, right = Some 5\<rparr>],
      tree_root = 6\<rparr>"

definition example_dated :: DatedTree where
  "example_dated =
     \<lparr>fromBL = True, rootedTree = example_tree,
      orderedSpeciations = [6, 4, 5, 0, 1, 2, 3], ranks = [3, 4, 5, 6, 1, 2, 0]\<rparr>"

text \<open>
  Three notions for the proofs about \<^verbatim>\<open>randomize()\<close> (they are not in the source).
  A node is internal when it has a left child. In the proofs every entry of
  \<^verbatim>\<open>toAdd\<close> is kept together with the preorder list of the nodes below it;
  \<open>frontier_nodes\<close> is the multiset of all these nodes. \<open>randomize_inv\<close> is the
  invariant of the loop, for the tree \<open>T\<close> with the preorder \<open>all\<close> of its nodes and
  the vectors \<open>os0\<close> and \<open>rk0\<close> of before the call: the internal nodes still below
  \<^verbatim>\<open>toAdd\<close> and the nodes written so far (the first \<open>c\<close> entries of
  \<^verbatim>\<open>_orderedSpeciations\<close>, \<open>c\<close> being \<^verbatim>\<open>currentRank\<close>) are together the internal
  nodes of the tree, each once; a node written at \<open>j\<close> has rank \<open>j\<close> and its parent
  was written before it; the parent of an entry of \<^verbatim>\<open>toAdd\<close> is written already;
  the entries from the number of internal nodes on, and the ranks of the leaves,
  are untouched.
\<close>

definition internal :: "PLLRootedTree \<Rightarrow> nat \<Rightarrow> bool" where
  "internal T n \<longleftrightarrow> left (node T n) \<noteq> None"

definition frontier_nodes :: "(nat \<times> nat list) list \<Rightarrow> nat multiset" where
  "frontier_nodes zs = mset (concat (map snd zs))"

definition randomize_inv ::
  "PLLRootedTree \<Rightarrow> nat list \<Rightarrow> nat list \<Rightarrow> nat list \<Rightarrow> (nat \<times> nat list) list \<Rightarrow> nat
     \<Rightarrow> nat list \<Rightarrow> nat list \<Rightarrow> bool" where
  "randomize_inv T all os0 rk0 zs c os rk \<longleftrightarrow>
     length os = getNodeNumber T \<and> length rk = getNodeNumber T \<and> c \<le> getNodeNumber T \<and>
     (\<forall>z \<in> set zs. subtree (tree_nodes T) (fst z) (snd z)) \<and>
     filter_mset (internal T) (frontier_nodes zs) + mset (take c os)
       = filter_mset (internal T) (mset all) \<and>
     (\<forall>z \<in> set zs. \<forall>p. parent (node T (fst z)) = Some p \<longrightarrow> (\<exists>j<c. os ! j = p)) \<and>
     (\<forall>j<c. rk ! (os ! j) = j) \<and>
     (\<forall>j. getInnerNodeNumber T \<le> j \<longrightarrow> os ! j = os0 ! j) \<and>
     (\<forall>n. \<not> internal T n \<longrightarrow> rk ! n = rk0 ! n) \<and>
     (\<forall>j<c. \<forall>p. parent (node T (os ! j)) = Some p \<longrightarrow> (\<exists>j'<j. os ! j' = p))"

section \<open>Dating search (src/search/DatedSpeciesTreeSearch.cpp)\<close>

text \<open>
  Modelled from the spec: the class \<^verbatim>\<open>SpeciesSearchState\<close> and the evaluator
  interface are not among the sources. Of the search state the search reads the
  fields \<^verbatim>\<open>bestLL\<close> and \<^verbatim>\<open>farFromPlausible\<close> (specification, section 6) and calls
  \<^verbatim>\<open>betterTreeCallback\<close>, which is a parameter of the model. The evaluator is the
  parameter \<open>computeLikelihood\<close>, a function of the current tree and dating (the
  claims assume a deterministic scorer); a score is a finite double, modelled by
  a real number. The difference of two doubles is rounded, so the subtraction in
  \<^verbatim>\<open>bestLL - initialItLL > 1.0\<close> is the parameter \<open>dsub\<close>. Logging, the per-family
  likelihoods and the notification \<^verbatim>\<open>onSpeciesDatesChange()\<close> do not change the
  tree, the dating or the search state and are left out.
\<close>

record SpeciesSearchState =
  bestLL :: real
  farFromPlausible :: bool

text \<open>
  The \<^verbatim>\<open>for\<close> loop of \<^verbatim>\<open>optimizeDatesLocal\<close>, from the current \<^verbatim>\<open>rank\<close> on. The loop
  state is the tree, the local variable \<^verbatim>\<open>bestLL\<close> (here \<open>best\<close>) and the optional
  search state. An accepted move sets \<^verbatim>\<open>rank -= std::min(2u, rank)\<close> before the
  \<^verbatim>\<open>++rank\<close> of the loop; a rejected move is followed by a second
  \<^verbatim>\<open>moveUp(rank)\<close>, whose result the code does not read. The loop has no bound of
  its own, so not returning is the value \<open>None\<close>.
\<close>

partial_function (option) optimizeDatesLocal_for ::
  "(DatedTree \<Rightarrow> real) \<Rightarrow> (real \<Rightarrow> SpeciesSearchState \<Rightarrow> SpeciesSearchState) \<Rightarrow> nat \<Rightarrow> nat
     \<Rightarrow> DatedTree \<Rightarrow> real \<Rightarrow> SpeciesSearchState option
     \<Rightarrow> (error + DatedTree \<times> real \<times> SpeciesSearchState option) option" where
  "optimizeDatesLocal_for computeLikelihood betterTreeCallback maxRank rank t best searchState =
     (if rank < maxRank then
        (case moveUp t rank of
           Inl e \<Rightarrow> Some (Inl e)
         | Inr (moved, t1) \<Rightarrow>
             if \<not> moved
             then optimizeDatesLocal_for computeLikelihood betterTreeCallback maxRank
                    ((rank + 1) mod 2 ^ 32) t1 best searchState
             else
               let ll = computeLikelihood t1;
                   searchState1 =
                     (case searchState of
                        None \<Rightarrow> None
                      | Some st \<Rightarrow> if ll > bestLL st then Some (betterTreeCallback ll st)
                          else Some st)
               in if ll > best
                  then optimizeDatesLocal_for computeLikelihood betterTreeCallback maxRank
                         ((rank - min 2 rank + 1) mod 2 ^ 32) t1 ll searchState1
                  else (case moveUp t1 rank of
                          Inl e \<Rightarrow> Some (Inl e)
                        | Inr (b, t2) \<Rightarrow>
                            optimizeDatesLocal_for computeLikelihood betterTreeCallback maxRank
                              ((rank + 1) mod 2 ^ 32) t2 best searchState1))
      else Some (Inr (t, best, searchState)))"

text \<open>
  The \<^verbatim>\<open>do ... while (tryAgain)\<close> loop: one round of the \<^verbatim>\<open>for\<close> loop from rank 0,
  and another round when \<^verbatim>\<open>bestLL - initialItLL > 1.0\<close>.
\<close>

partial_function (option) optimizeDatesLocal_rounds ::
  "(DatedTree \<Rightarrow> real) \<Rightarrow> (real \<Rightarrow> SpeciesSearchState \<Rightarrow> SpeciesSearchState)
     \<Rightarrow> (real \<Rightarrow> real \<Rightarrow> real) \<Rightarrow> nat
     \<Rightarrow> DatedTree \<Rightarrow> real \<Rightarrow> SpeciesSearchState option
     \<Rightarrow> (error + DatedTree \<times> real \<times> SpeciesSearchState option) option" where
  "optimizeDatesLocal_rounds computeLikelihood betterTreeCallback dsub maxRank t best searchState =
     (case optimizeDatesLocal_for computeLikelihood betterTreeCallback maxRank 0 t best
             searchState of
        None \<Rightarrow> None
      | Some (Inl e) \<Rightarrow> Some (Inl e)
      | Some (Inr (t1, best1, searchState1)) \<Rightarrow>
          if dsub best1 best > 1
          then optimizeDatesLocal_rounds computeLikelihood betterTreeCallback dsub maxRank
                 t1 best1 searchState1
          else Some (Inr (t1, best1, searchState1)))"

text \<open>
  \<^verbatim>\<open>optimizeDatesLocal(speciesTree, evaluator, searchState)\<close>: the result is the
  returned \<^verbatim>\<open>bestLL\<close>, with the tree and the search state as the call leaves them.
\<close>

definition optimizeDatesLocal ::
  "(DatedTree \<Rightarrow> real) \<Rightarrow> (real \<Rightarrow> SpeciesSearchState \<Rightarrow> SpeciesSearchState)
     \<Rightarrow> (real \<Rightarrow> real \<Rightarrow> real)
     \<Rightarrow> DatedTree \<Rightarrow> SpeciesSearchState option
     \<Rightarrow> (error + real \<times> DatedTree \<times> SpeciesSearchState option) option" where
  "optimizeDatesLocal computeLikelihood betterTreeCallback dsub t searchState =
     (let best = computeLikelihood t;
          maxRank = getInnerNodeNumber (rootedTree t)
      in case optimizeDatesLocal_rounds computeLikelihood betterTreeCallback dsub maxRank
                t best searchState of
           None \<Rightarrow> None
         | Some (Inl e) \<Rightarrow> Some (Inl e)
         | Some (Inr (t1, best1, searchState1)) \<Rightarrow> Some (Inr (best1, t1, searchState1)))"



section \<open>Root search (src/search/SpeciesRootSearch.cpp)\<close>

text \<open>
  Modelled from the spec: the class \<^verbatim>\<open>SpeciesTreeOperator\<close>, the topology of the
  species tree and the evaluator are not among the sources. The root search sees
  a species tree as its root (the rooted topology, of any type \<open>'r\<close>) and its
  dating (the rank vector that \<^verbatim>\<open>getBackup()\<close> returns and \<^verbatim>\<open>restoreDates\<close> puts
  back). The evaluator is its current internal state (of any type \<open>'c\<close>) and its
  stack of rollback checkpoints (specification, section 4.3: a LIFO checkpoint of
  the internal state of the scorer). The state of the generator \<^verbatim>\<open>Random\<close>, from which
  \<^verbatim>\<open>perturbateDates\<close> draws, is of any type \<open>'g\<close>.
\<close>

record 'r SpeciesTree =
  st_root :: 'r
  st_dating :: "nat list"

record 'c Evaluator =
  ev_current :: 'c
  ev_rollbacks :: "'c list"

text \<open>
  The operations that the root search calls and whose code is absent are the
  fields of a record \<open>L\<close>, a parameter of the model: whether the root can change in
  a direction, the root after \<^verbatim>\<open>changeRoot\<close> and after \<^verbatim>\<open>revertChangeRoot\<close>, the dating
  that each of the two leaves behind, the re-dating of
  \<^verbatim>\<open>DatedSpeciesTreeSearch::optimizeDates\<close> with its effect on the evaluator, on the
  search state and on the generator, and \<^verbatim>\<open>computeLikelihood\<close> (here
  \<open>computeLikelihood_of\<close>, a function of the tree that the evaluator refers to and
  of the state of the evaluator) with its effect on the evaluator.
  \<^verbatim>\<open>optimizeDates\<close> calls \<^verbatim>\<open>evaluator.isDated\<close>, \<^verbatim>\<open>perturbateDates\<close> with
  \<^verbatim>\<open>Random::getBool\<close> and \<^verbatim>\<open>Random::getInt\<close>, and \<^verbatim>\<open>optimizeDatesLocal\<close>; on the tree
  it only calls \<^verbatim>\<open>moveUp\<close>, \<^verbatim>\<open>moveDown\<close> and \<^verbatim>\<open>restoreDates\<close>, so that it changes the
  dating and never the root. The field \<open>redate\<close> is any function that gives the
  dating, the state of the evaluator, the search state and the state of the
  generator that \<^verbatim>\<open>optimizeDates\<close> leaves; the call is taken to return.
\<close>

record ('r, 'c, 'g) tree_layer =
  canChangeRoot :: "'r \<Rightarrow> nat \<Rightarrow> bool"
  rootAfterChange :: "'r \<Rightarrow> nat \<Rightarrow> 'r"
  rootAfterRevert :: "'r \<Rightarrow> nat \<Rightarrow> 'r"
  datingAfterChange :: "'r SpeciesTree \<Rightarrow> nat \<Rightarrow> nat list"
  datingAfterRevert :: "'r SpeciesTree \<Rightarrow> nat \<Rightarrow> nat list"
  redate :: "'r SpeciesTree \<Rightarrow> 'c \<Rightarrow> SpeciesSearchState \<Rightarrow> bool \<Rightarrow> 'g
    \<Rightarrow> nat list \<times> 'c \<times> SpeciesSearchState \<times> 'g"
  computeLikelihood_of :: "'r SpeciesTree \<Rightarrow> 'c \<Rightarrow> real \<times> 'c"

text \<open>
  Modelled from the spec: \<^verbatim>\<open>changeRoot\<close>, \<^verbatim>\<open>revertChangeRoot\<close> and \<^verbatim>\<open>restoreDates\<close> are
  declared in SpeciesTree.hpp and their code is absent. \<^verbatim>\<open>changeRoot\<close> moves the root
  to the neighbouring branch that the direction describes and \<^verbatim>\<open>revertChangeRoot\<close>
  moves it back: the new root is a function of the old root and of the direction,
  the dating that they leave is a function of the tree and of the direction.
  \<^verbatim>\<open>restoreDates\<close> puts a backup back as the dating and leaves the root
  (specification, section 4.2: restore assigns \<^verbatim>\<open>ranks = backup\<close>).
\<close>

definition changeRoot :: "('r, 'c, 'g) tree_layer \<Rightarrow> 'r SpeciesTree \<Rightarrow> nat \<Rightarrow> 'r SpeciesTree" where
  "changeRoot L t direction =
     \<lparr>st_root = rootAfterChange L (st_root t) direction,
      st_dating = datingAfterChange L t direction\<rparr>"

definition revertChangeRoot ::
  "('r, 'c, 'g) tree_layer \<Rightarrow> 'r SpeciesTree \<Rightarrow> nat \<Rightarrow> 'r SpeciesTree" where
  "revertChangeRoot L t direction =
     \<lparr>st_root = rootAfterRevert L (st_root t) direction,
      st_dating = datingAfterRevert L t direction\<rparr>"

definition restoreDates :: "'r SpeciesTree \<Rightarrow> nat list \<Rightarrow> 'r SpeciesTree" where
  "restoreDates t backup = t\<lparr>st_dating := backup\<rparr>"

text \<open>
  \<^verbatim>\<open>DatedSpeciesTreeSearch::optimizeDates\<close> as the root search sees it: the tree keeps
  its root and gets the dating of \<open>redate\<close>.
\<close>

definition optimizeDates ::
  "('r, 'c, 'g) tree_layer \<Rightarrow> 'r SpeciesTree \<Rightarrow> 'c \<Rightarrow> SpeciesSearchState \<Rightarrow> bool \<Rightarrow> 'g
     \<Rightarrow> 'r SpeciesTree \<times> 'c \<times> SpeciesSearchState \<times> 'g" where
  "optimizeDates L t c searchState thorough g =
     (case redate L t c searchState thorough g of
        (dating, c1, searchState1, g1) \<Rightarrow> (t\<lparr>st_dating := dating\<rparr>, c1, searchState1, g1))"

text \<open>
  Modelled from the spec: \<^verbatim>\<open>pushRollback\<close> and \<^verbatim>\<open>popAndApplyRollback\<close> belong to the
  evaluator interface, which is not among the sources. Specification, section
  4.3: a LIFO checkpoint of the internal state of the scorer. A push saves the
  current state on the stack; a pop puts the state saved last back as the current
  one and removes it from the stack; a pop on an empty stack is an error.
\<close>

definition pushRollback :: "'c Evaluator \<Rightarrow> 'c Evaluator" where
  "pushRollback ev = ev\<lparr>ev_rollbacks := ev_current ev # ev_rollbacks ev\<rparr>"

definition popAndApplyRollback :: "'c Evaluator \<Rightarrow> error + 'c Evaluator" where
  "popAndApplyRollback ev =
     (case ev_rollbacks ev of
        [] \<Rightarrow> Inl OutOfBounds
      | c # cs \<Rightarrow> Inr (ev\<lparr>ev_current := c, ev_rollbacks := cs\<rparr>))"

text \<open>
  What \<^verbatim>\<open>rootSearchAux\<close> reads and writes through its reference parameters: the
  species tree, the evaluator, the search state, the generator, \<^verbatim>\<open>movesHistory\<close>,
  \<^verbatim>\<open>bestMovesHistory\<close>, \<^verbatim>\<open>bestDatedBackup\<close> and \<^verbatim>\<open>bestLL\<close> (here \<open>rs_bestLL\<close>). The two
  optional outputs \<^verbatim>\<open>rootLikelihoods\<close> and \<^verbatim>\<open>treePerFamLLVec\<close> and the log are only
  written and are left out.
\<close>

record ('r, 'c, 'g) root_search =
  rs_tree :: "'r SpeciesTree"
  rs_evaluator :: "'c Evaluator"
  rs_searchState :: SpeciesSearchState
  rs_random :: 'g
  movesHistory :: "nat list"
  bestMovesHistory :: "nat list"
  bestDatedBackup :: "nat list"
  rs_bestLL :: real

text \<open>
  The loop \<^verbatim>\<open>for (auto direction : moves)\<close> of \<^verbatim>\<open>rootSearchAux\<close>, over the directions
  that are left. \<^verbatim>\<open>bestLLStack\<close> is a by-value parameter that the loop updates;
  \<^verbatim>\<open>newMaxDepth\<close> is an \<^verbatim>\<open>unsigned int\<close>. The recursive call of \<^verbatim>\<open>rootSearchAux\<close> is
  written out: it returns at once when the history is longer than the new
  depth, and otherwise runs the loop over the two directions that follow the
  last move. The recursion has no bound of its own, so not returning is the value
  \<open>None\<close>; \<open>Option.bind\<close> passes what the recursive call returned to the rest of
  the loop body.
\<close>

partial_function (option) rootSearchAux_loop ::
  "('r, 'c, 'g) tree_layer \<Rightarrow> nat \<Rightarrow> nat list \<Rightarrow> real \<Rightarrow> ('r, 'c, 'g) root_search
     \<Rightarrow> (error + ('r, 'c, 'g) root_search) option" where
  "rootSearchAux_loop L maxDepth moves bestLLStack s =
     (if moves = [] then Some (Inr s)
      else
        let direction = hd moves
        in if \<not> canChangeRoot L (st_root (rs_tree s)) direction
           then rootSearchAux_loop L maxDepth (tl moves) bestLLStack s
           else
             let history1 = movesHistory s @ [direction];
                 ev1 = pushRollback (rs_evaluator s);
                 backup = st_dating (rs_tree s);
                 tree1 = changeRoot L (rs_tree s) direction
             in case optimizeDates L tree1 (ev_current ev1) (rs_searchState s)
                       (\<not> farFromPlausible (rs_searchState s)) (rs_random s) of
                  (tree2, c2, searchState2, g2) \<Rightarrow>
                    (case computeLikelihood_of L tree2 c2 of
                       (ll, c3) \<Rightarrow>
                         let newMaxDepth =
                               (if ll > bestLLStack then (length history1 + 2) mod 2 ^ 32
                                else maxDepth);
                             bestLLStack1 = (if ll > bestLLStack then ll else bestLLStack);
                             s1 = s\<lparr>rs_tree := tree2,
                                    rs_evaluator := ev1\<lparr>ev_current := c3\<rparr>,
                                    rs_searchState := searchState2,
                                    rs_random := g2,
                                    movesHistory := history1\<rparr>;
                             s2 = (if ll > rs_bestLL s1
                                   then s1\<lparr>rs_bestLL := ll, bestMovesHistory := history1,
                                           bestDatedBackup := st_dating tree2\<rparr>
                                   else s1)
                         in Option.bind
                              (if length history1 > newMaxDepth then Some (Inr s2)
                               else rootSearchAux_loop L newMaxDepth
                                      [last history1 mod 2, 2 + last history1 mod 2]
                                      bestLLStack1 s2)
                              (\<lambda>returned.
                                 case returned of
                                   Inl e \<Rightarrow> Some (Inl e)
                                 | Inr s3 \<Rightarrow>
                                     let tree3 = restoreDates
                                           (revertChangeRoot L (rs_tree s3) direction) backup
                                     in case popAndApplyRollback (rs_evaluator s3) of
                                          Inl e \<Rightarrow> Some (Inl e)
                                        | Inr ev3 \<Rightarrow>
                                            if movesHistory s3 = []
                                            then Some (Inl OutOfBounds)
                                            else rootSearchAux_loop L maxDepth (tl moves)
                                                   bestLLStack1
                                                   (s3\<lparr>rs_tree := tree3, rs_evaluator := ev3,
                                                       movesHistory :=
                                                         butlast (movesHistory s3)\<rparr>))))"

text \<open>
  \<^verbatim>\<open>rootSearchAux\<close>: the test on the depth, then \<^verbatim>\<open>movesHistory.back()\<close> (which an
  empty history does not have), then the loop over the two directions.
\<close>

definition rootSearchAux ::
  "('r, 'c, 'g) tree_layer \<Rightarrow> nat \<Rightarrow> real \<Rightarrow> ('r, 'c, 'g) root_search
     \<Rightarrow> (error + ('r, 'c, 'g) root_search) option" where
  "rootSearchAux L maxDepth bestLLStack s =
     (if length (movesHistory s) > maxDepth then Some (Inr s)
      else if movesHistory s = [] then Some (Inl OutOfBounds)
      else rootSearchAux_loop L maxDepth
             [last (movesHistory s) mod 2, 2 + last (movesHistory s) mod 2] bestLLStack s)"

text \<open>
  \<^verbatim>\<open>rootSearch\<close>: the likelihood at entry, the two searches from the histories
  \<^verbatim>\<open>[1]\<close> and \<^verbatim>\<open>[0]\<close>, then \<^verbatim>\<open>changeRoot\<close> along \<^verbatim>\<open>bestMovesHistory\<close> from index 1 on and
  \<^verbatim>\<open>restoreDates\<close> with \<^verbatim>\<open>bestDatedBackup\<close>. The result is the returned \<^verbatim>\<open>bestLL\<close>
  with the state that the call leaves.
\<close>

definition rootSearch ::
  "('r, 'c, 'g) tree_layer \<Rightarrow> nat \<Rightarrow> 'r SpeciesTree \<Rightarrow> 'c Evaluator \<Rightarrow> SpeciesSearchState
     \<Rightarrow> 'g \<Rightarrow> (error + real \<times> ('r, 'c, 'g) root_search) option" where
  "rootSearch L maxDepth speciesTree ev searchState g =
     (case computeLikelihood_of L speciesTree (ev_current ev) of
        (initialLL, c1) \<Rightarrow>
          let s0 = \<lparr>rs_tree = speciesTree, rs_evaluator = ev\<lparr>ev_current := c1\<rparr>,
                    rs_searchState = searchState, rs_random = g, movesHistory = [1],
                    bestMovesHistory = [], bestDatedBackup = st_dating speciesTree,
                    rs_bestLL = initialLL\<rparr>
          in case rootSearchAux L maxDepth initialLL s0 of
               None \<Rightarrow> None
             | Some (Inl e) \<Rightarrow> Some (Inl e)
             | Some (Inr s1) \<Rightarrow>
                 if movesHistory s1 = [] then Some (Inl OutOfBounds)
                 else
                   (case rootSearchAux L maxDepth initialLL
                           (s1\<lparr>movesHistory := (movesHistory s1)[0 := 0]\<rparr>) of
                      None \<Rightarrow> None
                    | Some (Inl e) \<Rightarrow> Some (Inl e)
                    | Some (Inr s2) \<Rightarrow>
                        let tree3 = foldl (changeRoot L) (rs_tree s2) (tl (bestMovesHistory s2));
                            tree4 = restoreDates tree3 (bestDatedBackup s2)
                        in Some (Inr (rs_bestLL s2, s2\<lparr>rs_tree := tree4\<rparr>))))"

text \<open>
  Notions for the statements about the root search (they are not in the source).
  \<open>scores L\<close> is the set of the likelihoods that the evaluator can return and
  \<open>scores_above L b\<close> the number of those above \<open>b\<close>. \<open>revert_undoes L\<close> is the
  contract of \<^verbatim>\<open>revertChangeRoot\<close>: it gives back the root of before a \<^verbatim>\<open>changeRoot\<close>
  that was allowed. For a root \<open>root0\<close> from which the search started,
  \<open>history_ok\<close> says that the current root is reached from \<open>root0\<close> by the moves of
  \<^verbatim>\<open>movesHistory\<close> from index 1 on, and \<open>best_ok\<close> says that \<^verbatim>\<open>bestLL\<close> is a likelihood
  of the tree whose root is reached from \<open>root0\<close> by the moves of
  \<^verbatim>\<open>bestMovesHistory\<close> from index 1 on and whose dating is \<^verbatim>\<open>bestDatedBackup\<close>.
\<close>

definition scores :: "('r, 'c, 'g) tree_layer \<Rightarrow> real set" where
  "scores L = range (\<lambda>(t, c). fst (computeLikelihood_of L t c))"

definition scores_above :: "('r, 'c, 'g) tree_layer \<Rightarrow> real \<Rightarrow> nat" where
  "scores_above L b = card {x \<in> scores L. b < x}"

definition revert_undoes :: "('r, 'c, 'g) tree_layer \<Rightarrow> bool" where
  "revert_undoes L \<longleftrightarrow>
     (\<forall>r direction. canChangeRoot L r direction \<longrightarrow>
        rootAfterRevert L (rootAfterChange L r direction) direction = r)"

definition history_ok :: "('r, 'c, 'g) tree_layer \<Rightarrow> 'r \<Rightarrow> ('r, 'c, 'g) root_search \<Rightarrow> bool" where
  "history_ok L root0 s \<longleftrightarrow>
     movesHistory s \<noteq> [] \<and>
     st_root (rs_tree s) = foldl (rootAfterChange L) root0 (tl (movesHistory s))"

definition best_ok :: "('r, 'c, 'g) tree_layer \<Rightarrow> 'r \<Rightarrow> ('r, 'c, 'g) root_search \<Rightarrow> bool" where
  "best_ok L root0 s \<longleftrightarrow>
     (\<exists>c. fst (computeLikelihood_of L
              \<lparr>st_root = foldl (rootAfterChange L) root0 (tl (bestMovesHistory s)),
               st_dating = bestDatedBackup s\<rparr> c) = rs_bestLL s)"

text \<open>
  A small tree layer for examples: the root is a number, only direction 1 moves
  it (by one, while it is below 2), the re-dating reverses the dating, the
  likelihood is 1 at root 1 and 0 elsewhere, and the evaluator counts its
  evaluations.
\<close>

definition example_layer :: "(nat, nat, unit) tree_layer" where
  "example_layer =
     \<lparr>canChangeRoot = (\<lambda>r direction. direction = 1 \<and> r < 2),
      rootAfterChange = (\<lambda>r direction. r + direction),
      rootAfterRevert = (\<lambda>r direction. r - direction),
      datingAfterChange = (\<lambda>t direction. st_dating t),
      datingAfterRevert = (\<lambda>t direction. st_dating t),
      redate = (\<lambda>t c searchState thorough g. (rev (st_dating t), c, searchState, g)),
      computeLikelihood_of = (\<lambda>t c. (if st_root t = 1 then 1 else 0, c + 1))\<rparr>"

definition example_search :: "(nat, nat, unit) root_search" where
  "example_search =
     \<lparr>rs_tree = \<lparr>st_root = 0, st_dating = [0, 1]\<rparr>,
      rs_evaluator = \<lparr>ev_current = 1, ev_rollbacks = []\<rparr>,
      rs_searchState = \<lparr>bestLL = 0, farFromPlausible = False\<rparr>,
      rs_random = (),
      movesHistory = [1],
      bestMovesHistory = [],
      bestDatedBackup = [0, 1],
      rs_bestLL = 0\<rparr>"

section \<open>Properties of ScaledValue\<close>

lemma isNull_ScaledValue_null: "isNull ScaledValue_null"
  by (simp add: isNull_def ScaledValue_null_def)

text \<open>
  Claim C7, as the code has it: \<^verbatim>\<open>a >= b\<close> is the negation of \<^verbatim>\<open>a < b\<close>. For a
  null \<open>a\<close> the comparison \<^verbatim>\<open>a < b\<close> is \<^verbatim>\<open>!b.isNull()\<close>, which is false for a null
  \<open>b\<close>, so \<^verbatim>\<open>a >= b\<close> is true (not false) when both are null.
\<close>

theorem sv_greater_eq_null_null:
  "sv_greater_eq a b = (\<not> sv_less a b) \<and> (isNull a \<and> isNull b \<longrightarrow> sv_greater_eq a b)"
  by (simp add: sv_greater_eq_def sv_less_def)

theorem sv_greater_eq_null_null_witness:
  "isNull ScaledValue_null \<and> sv_greater_eq ScaledValue_null ScaledValue_null"
  using sv_greater_eq_null_null [of ScaledValue_null ScaledValue_null]
    isNull_ScaledValue_null
  by blast

text \<open>
  The claim C7 as the specification words it (null against null gives false) fails
  on the default-constructed null value.
\<close>

theorem sv_greater_eq_null_null_counterexample:
  "isNull ScaledValue_null \<and> sv_greater_eq ScaledValue_null ScaledValue_null \<noteq> False"
  by (simp add: sv_greater_eq_def sv_less_def isNull_def ScaledValue_null_def)

text \<open>
  Claim C8: \<^verbatim>\<open>operator-\<close> case by case, for every subtraction \<open>dsub\<close> of doubles,
  on the difference \<open>dsub value v.value\<close> as the machine computes it. With equal
  scalers and a computed difference that is not negative the result is
  \<^verbatim>\<open>scale()\<close> applied to the pair of the computed difference and the scaler; a
  negative computed difference of absolute value below the tolerance
  \<^verbatim>\<open>0.0000000001\<close> (so also one of absolute value below \<open>10\<^sup>-\<^sup>1\<^sup>0\<close>) gives the null
  value; any other negative computed difference fails the assertion. A right
  scaler below the left one fails the assertion, a right scaler above it returns
  the left operand.
\<close>

theorem sv_minus_cases:
  "(scaler v = scaler a \<and> 0 \<le> dsub (val a) (val v) \<longrightarrow>
      sv_minus dsub a v = scale \<lparr>val = dsub (val a) (val v), scaler = scaler a\<rparr>) \<and>
   (scaler v = scaler a \<and> dsub (val a) (val v) < 0 \<and>
      \<bar>dsub (val a) (val v)\<bar> < subtraction_tolerance \<longrightarrow>
      sv_minus dsub a v = Inr \<lparr>val = 0, scaler = NULL_SCALER\<rparr>) \<and>
   (scaler v = scaler a \<and> dsub (val a) (val v) < 0 \<and> \<bar>dsub (val a) (val v)\<bar> < 1 / 10 ^ 10 \<longrightarrow>
      sv_minus dsub a v = Inr \<lparr>val = 0, scaler = NULL_SCALER\<rparr>) \<and>
   (scaler v = scaler a \<and> dsub (val a) (val v) < 0 \<and>
      \<not> \<bar>dsub (val a) (val v)\<bar> < subtraction_tolerance \<longrightarrow>
      sv_minus dsub a v = Inl AssertionFailure) \<and>
   (scaler v < scaler a \<longrightarrow> sv_minus dsub a v = Inl AssertionFailure) \<and>
   (scaler a < scaler v \<longrightarrow> sv_minus dsub a v = Inr a)"
proof -
  have "(1::real) / 10 ^ 10 < subtraction_tolerance"
    by (simp add: subtraction_tolerance_def)
  then have "\<bar>dsub (val a) (val v)\<bar> < 1 / 10 ^ 10
      \<Longrightarrow> \<bar>dsub (val a) (val v)\<bar> < subtraction_tolerance"
    by (rule less_trans [rotated])
  then show ?thesis
    by (auto simp add: sv_minus_def ScaledValue_mk_def ScaledValue_null_def)
qed

theorem sv_minus_cases_witness:
  "sv_minus (\<lambda>x y. x - y) \<lparr>val = 3, scaler = 2\<rparr> \<lparr>val = 1, scaler = 2\<rparr>
     = Inr \<lparr>val = 2, scaler = 2\<rparr> \<and>
   sv_minus (\<lambda>x y. x - y) \<lparr>val = 1 / 2 ^ 40, scaler = 2\<rparr> \<lparr>val = 1 / 2 ^ 39, scaler = 2\<rparr>
     = Inr \<lparr>val = 0, scaler = NULL_SCALER\<rparr> \<and>
   sv_minus (\<lambda>x y. x - y) \<lparr>val = 1, scaler = 2\<rparr> \<lparr>val = 3, scaler = 2\<rparr> = Inl AssertionFailure \<and>
   sv_minus (\<lambda>x y. x - y) \<lparr>val = 3, scaler = 2\<rparr> \<lparr>val = 1, scaler = 1\<rparr> = Inl AssertionFailure \<and>
   sv_minus (\<lambda>x y. x - y) \<lparr>val = 3, scaler = 2\<rparr> \<lparr>val = 1, scaler = 4\<rparr>
     = Inr \<lparr>val = 3, scaler = 2\<rparr>"
proof -
  have "scale \<lparr>val = 2, scaler = 2\<rparr> = Inr \<lparr>val = 2, scaler = 2\<rparr>"
    by (simp add: scale_def JS_SCALE_THRESHOLD_def JS_SCALE_FACTOR_def)
  then show ?thesis
    using sv_minus_cases [where dsub = "\<lambda>x y. x - y" and a = "\<lparr>val = 3, scaler = 2\<rparr>"
          and v = "\<lparr>val = 1, scaler = 2\<rparr>"]
      sv_minus_cases [where dsub = "\<lambda>x y. x - y" and a = "\<lparr>val = 1 / 2 ^ 40, scaler = 2\<rparr>"
          and v = "\<lparr>val = 1 / 2 ^ 39, scaler = 2\<rparr>"]
      sv_minus_cases [where dsub = "\<lambda>x y. x - y" and a = "\<lparr>val = 1, scaler = 2\<rparr>"
          and v = "\<lparr>val = 3, scaler = 2\<rparr>"]
      sv_minus_cases [where dsub = "\<lambda>x y. x - y" and a = "\<lparr>val = 3, scaler = 2\<rparr>"
          and v = "\<lparr>val = 1, scaler = 1\<rparr>"]
      sv_minus_cases [where dsub = "\<lambda>x y. x - y" and a = "\<lparr>val = 3, scaler = 2\<rparr>"
          and v = "\<lparr>val = 1, scaler = 4\<rparr>"]
    by (simp add: subtraction_tolerance_def)
qed

text \<open>
  Claim C9, as the code has it: \<^verbatim>\<open>scale()\<close> makes one rescaling step. For a value
  that is zero or at least the square of the threshold (\<open>2\<^sup>-\<^sup>5\<^sup>1\<^sup>2\<close>), and a scaler
  that the step does not overflow, a call returns, and a second call right after it
  changes neither field.
\<close>

theorem scale_twice:
  assumes "val a = 0 \<or> JS_SCALE_THRESHOLD * JS_SCALE_THRESHOLD \<le> val a"
    and "val a < JS_SCALE_THRESHOLD \<longrightarrow> scaler a \<noteq> INT_MAX"
  shows "\<exists>b. scale a = Inr b \<and> scale b = Inr b"
proof (cases "val a < JS_SCALE_THRESHOLD")
  case False
  then show ?thesis by (simp add: scale_def)
next
  case True
  with assms(2) have ok: "scaler a \<noteq> INT_MAX" by simp
  show ?thesis
  proof (cases "val a = 0")
    case True
    then show ?thesis using ok
      by (simp add: scale_def checkNull_def JS_SCALE_THRESHOLD_def JS_SCALE_FACTOR_def
          NULL_SCALER_def INT_MAX_def)
  next
    case False
    with assms(1) have "JS_SCALE_THRESHOLD * JS_SCALE_THRESHOLD \<le> val a" by simp
    then have "JS_SCALE_THRESHOLD * JS_SCALE_THRESHOLD * JS_SCALE_FACTOR
        \<le> val a * JS_SCALE_FACTOR"
      by (simp add: JS_SCALE_FACTOR_def)
    then have "\<not> val a * JS_SCALE_FACTOR < JS_SCALE_THRESHOLD"
      by (simp add: JS_SCALE_THRESHOLD_def JS_SCALE_FACTOR_def)
    with True False ok show ?thesis
      by (simp add: scale_def checkNull_def JS_SCALE_FACTOR_def)
  qed
qed

theorem scale_twice_witness:
  "\<exists>b. scale \<lparr>val = 1 / 2 ^ 300, scaler = 0\<rparr> = Inr b \<and> scale b = Inr b"
  using scale_twice [of "\<lparr>val = 1 / 2 ^ 300, scaler = 0\<rparr>"]
  by (simp add: JS_SCALE_THRESHOLD_def JS_SCALE_FACTOR_def INT_MAX_def)

text \<open>
  The claim C9 for every value fails: \<open>2\<^sup>-\<^sup>6\<^sup>0\<^sup>0\<close> is a double, the first call gives
  \<open>2\<^sup>-\<^sup>3\<^sup>4\<^sup>4\<close> with scaler 1, still below the threshold \<open>2\<^sup>-\<^sup>2\<^sup>5\<^sup>6\<close>, and the second
  call changes both fields again. Every product here is a product with a power of
  two inside the range of the doubles, so the doubles give the same numbers.
\<close>

theorem scale_twice_counterexample:
  "scale \<lparr>val = 1 / 2 ^ 600, scaler = 0\<rparr> = Inr \<lparr>val = 1 / 2 ^ 344, scaler = 1\<rparr> \<and>
   scale \<lparr>val = 1 / 2 ^ 344, scaler = 1\<rparr> = Inr \<lparr>val = 1 / 2 ^ 88, scaler = 2\<rparr> \<and>
   \<lparr>val = 1 / 2 ^ 344, scaler = 1\<rparr> \<noteq> \<lparr>val = 1 / 2 ^ 88, scaler = (2::int)\<rparr>"
  by (simp add: scale_def checkNull_def JS_SCALE_THRESHOLD_def JS_SCALE_FACTOR_def INT_MAX_def)

text \<open>
  Claim C10: a value field equal to zero decides nullness, whatever the scaler:
  such a ScaledValue is null, is \<^verbatim>\<open><\<close> every ScaledValue with a non-zero value and
  is \<^verbatim>\<open><=\<close> every ScaledValue.
\<close>

theorem zero_value_is_null:
  "val a = 0 \<Longrightarrow> isNull a \<and> (val b \<noteq> 0 \<longrightarrow> sv_less a b) \<and> sv_less_eq a b"
  by (simp add: isNull_def sv_less_def sv_less_eq_def)

theorem zero_value_is_null_witness:
  "scaler (ScaledValue_of 0) = 0 \<and> isNull (ScaledValue_of 0) \<and>
   sv_less (ScaledValue_of 0) \<lparr>val = 1, scaler = 5\<rparr> \<and>
   sv_less (ScaledValue_of 0) \<lparr>val = 1, scaler = - 5\<rparr> \<and>
   sv_less_eq (ScaledValue_of 0) \<lparr>val = 1, scaler = 5\<rparr> \<and>
   sv_less_eq (ScaledValue_of 0) ScaledValue_null"
  using zero_value_is_null [of "ScaledValue_of 0" "\<lparr>val = 1, scaler = 5\<rparr>"]
    zero_value_is_null [of "ScaledValue_of 0" "\<lparr>val = 1, scaler = - 5\<rparr>"]
    zero_value_is_null [of "ScaledValue_of 0" ScaledValue_null]
  by (simp add: ScaledValue_of_def)

section \<open>Properties of DatedTree\<close>

lemma size_minus_two: "2 \<le> n \<Longrightarrow> n \<le> 2 ^ 32 \<Longrightarrow> (n + 2 ^ 64 - 2) mod 2 ^ 64 = n - (2::nat)"
proof -
  assume a: "2 \<le> n" "n \<le> 2 ^ 32"
  have h: "n + 2 ^ 64 - 2 = (n - 2) + 2 ^ 64" using a by simp
  have l: "n - 2 < (2::nat) ^ 64" using a by simp
  have "(n + 2 ^ 64 - 2) mod 2 ^ 64 = ((n - 2) + 2 ^ 64) mod 2 ^ 64"
    by (simp only: h)
  also have "\<dots> = (n - 2) mod 2 ^ 64" by (rule mod_add_self2)
  also have "\<dots> = n - 2" using l by (rule mod_less)
  finally show ?thesis .
qed

lemma succ_mod: "r + 1 < n \<Longrightarrow> n \<le> 2 ^ 32 \<Longrightarrow> (r + 1) mod 2 ^ 32 = r + (1::nat)"
  by simp

lemma pred_mod: "r < 2 ^ 32 \<Longrightarrow> (r + 1 + 2 ^ 32 - 1) mod 2 ^ 32 = (r::nat)"
  by simp

lemma subtree_top: "subtree ns n xs \<Longrightarrow> n < length ns \<and> n \<in> set xs"
  by (induction rule: subtree.induct) auto

lemma subtree_has_leaf: "subtree ns n xs \<Longrightarrow> \<exists>x \<in> set xs. left (ns ! x) = None"
  by (induction rule: subtree.induct) auto

lemma subtree_inner:
  assumes "subtree ns n xs" "left (ns ! n) = Some l"
  shows "\<exists>r ls rs. right (ns ! n) = Some r \<and> parent (ns ! l) = Some n \<and> parent (ns ! r) = Some n
     \<and> subtree ns l ls \<and> subtree ns r rs \<and> xs = n # ls @ rs"
  using assms by (cases rule: subtree.cases) auto

lemma subtree_leaf:
  assumes "subtree ns n xs" "left (ns ! n) = None"
  shows "xs = [n]"
  using assms by (cases rule: subtree.cases) auto

lemma ranks_os:
  assumes "DatedTree_inv t" "k < getNodeNumber (rootedTree t)"
  shows "orderedSpeciations t ! k < getNodeNumber (rootedTree t)
    \<and> ranks t ! (orderedSpeciations t ! k) = k"
proof -
  let ?N = "getNodeNumber (rootedTree t)"
  let ?f = "\<lambda>n. ranks t ! n"
  have a: "\<forall>n < ?N. ?f n < ?N \<and> orderedSpeciations t ! (?f n) = n"
    using assms(1) by (simp add: DatedTree_inv_def)
  have "inj_on ?f {..<?N}"
    by (rule inj_onI) (metis a lessThan_iff)
  moreover have "?f ` {..<?N} \<subseteq> {..<?N}" using a by auto
  ultimately have "?f ` {..<?N} = {..<?N}"
    by (simp add: endo_inj_surj)
  then obtain n where "n < ?N" "?f n = k" using assms(2)
    by (metis imageE lessThan_iff)
  then show ?thesis using a by auto
qed

lemma two_nodes:
  assumes "fromBL t" "DatedTree_inv t"
  shows "2 \<le> getNodeNumber (rootedTree t)"
proof -
  let ?T = "rootedTree t"
  obtain xs where xs: "subtree (tree_nodes ?T) (tree_root ?T) xs"
    using assms(2) by (auto simp: DatedTree_inv_def wf_tree_def)
  obtain l where l: "left (tree_nodes ?T ! tree_root ?T) = Some l"
    using assms by (auto simp: DatedTree_inv_def getRoot_def node_def)
  from subtree_inner [OF xs l] obtain ls where "subtree (tree_nodes ?T) l ls"
    and p: "parent (tree_nodes ?T ! l) = Some (tree_root ?T)" by blast
  then have "l < getNodeNumber ?T" using subtree_top by (auto simp: getNodeNumber_def)
  then have "ranks t ! tree_root ?T < ranks t ! l" "ranks t ! l < getNodeNumber ?T"
    using assms(2) p by (auto simp: DatedTree_inv_def node_def)
  then show ?thesis by simp
qed

lemma moveDown_dated:
  assumes d: "fromBL t" and i: "DatedTree_inv t"
  shows "moveDown t r = Inr (if can_swap t r then (True, swap_ranks t r) else (False, t))"
proof -
  let ?N = "getNodeNumber (rootedTree t)"
  have N2: "2 \<le> ?N" using two_nodes [OF d i] .
  have N32: "?N \<le> 2 ^ 32" using i by (simp add: DatedTree_inv_def wf_tree_def getNodeNumber_def)
  have len: "length (orderedSpeciations t) = ?N" "length (ranks t) = ?N"
    using i by (simp_all add: DatedTree_inv_def)
  have sz: "(length (orderedSpeciations t) + 2 ^ 64 - 2) mod 2 ^ 64 = ?N - 2"
    using size_minus_two [OF N2 N32] len by simp
  show ?thesis
  proof (cases "r + 2 \<le> ?N")
    case False
    then have "r > ?N - 2" using N2 by simp
    then show ?thesis using d False unfolding moveDown_def sz by (simp add: can_swap_def)
  next
    case True
    then have r: "r < ?N" "r + 1 < ?N" by simp_all
    have m: "(r + 1) mod 2 ^ 32 = r + 1" using r N32 by simp
    have le: "\<not> r > ?N - 2" using True by simp
    let ?n1 = "orderedSpeciations t ! r" and ?n2 = "orderedSpeciations t ! (r + 1)"
    have n1: "?n1 < ?N" "ranks t ! ?n1 = r" using ranks_os [OF i r(1)] by simp_all
    have n2: "?n2 < ?N" "ranks t ! ?n2 = r + 1" using ranks_os [OF i r(2)] by simp_all
    have ne: "?n1 \<noteq> ?n2" using n1 n2 by auto
    have a: "(ranks t ! ?n1 + 1) mod 2 ^ 32 = r + 1" using n1 m by simp
    have b: "((ranks t)[?n1 := r + 1] ! ?n2 + 2 ^ 32 - 1) mod 2 ^ 32 = r"
      using ne n2 r N32 by simp
    show ?thesis
      using d le r n1(1) n2(1) unfolding moveDown_def Let_def sz m a b
      by (simp add: len can_swap_def swap_ranks_def)
  qed
qed

lemma subtree_parent:
  "subtree ns n xs \<Longrightarrow> x \<in> set xs \<Longrightarrow> x \<noteq> n \<Longrightarrow> \<exists>q \<in> set xs. parent (ns ! x) = Some q"
proof (induction arbitrary: x rule: subtree.induct)
  case (leaf n)
  then show ?case by simp
next
  case (inner n l r ls rs)
  from inner.prems have "x \<in> set ls \<or> x \<in> set rs" by auto
  then show ?case
  proof
    assume "x \<in> set ls"
    then show ?thesis using inner.hyps(4) inner.IH(1) [of x] by (cases "x = l") auto
  next
    assume "x \<in> set rs"
    then show ?thesis using inner.hyps(5) inner.IH(2) [of x] by (cases "x = r") auto
  qed
qed

lemma wf_treeD:
  assumes "wf_tree T"
  shows "tree_root T < length (tree_nodes T)" "length (tree_nodes T) \<le> 2 ^ 32"
    "parent (node T (tree_root T)) = None"
    "\<exists>xs. subtree (tree_nodes T) (tree_root T) xs \<and> distinct xs \<and>
        set xs = {..<length (tree_nodes T)}"
  using assms unfolding wf_tree_def by blast+

lemma parent_valid:
  assumes "wf_tree T" "c < getNodeNumber T" "parent (node T c) = Some p"
  shows "p < getNodeNumber T"
proof -
  from wf_treeD(4) [OF assms(1)] obtain xs where xs: "subtree (tree_nodes T) (tree_root T) xs"
    "set xs = {..<length (tree_nodes T)}"
    by blast
  have "c \<in> set xs" using assms(2) unfolding xs(2) getNodeNumber_def by simp
  moreover have "c \<noteq> tree_root T" using wf_treeD(3) [OF assms(1)] assms(3) by auto
  ultimately obtain q where q: "q \<in> set xs" "parent (tree_nodes T ! c) = Some q"
    using subtree_parent [OF xs(1)] by blast
  have "q < length (tree_nodes T)" using q(1) unfolding xs(2) by simp
  then show ?thesis using assms(3) q(2) by (simp add: node_def getNodeNumber_def)
qed

lemma swap_ranks_inv:
  assumes d: "fromBL t" and i: "DatedTree_inv t" and c: "can_swap t r"
  shows "DatedTree_inv (swap_ranks t r)"
proof -
  let ?T = "rootedTree t"
  let ?N = "getNodeNumber ?T"
  let ?os = "orderedSpeciations t" and ?rk = "ranks t"
  let ?n1 = "?os ! r" and ?n2 = "?os ! (r + 1)"
  let ?os' = "orderedSpeciations (swap_ranks t r)" and ?rk' = "ranks (swap_ranks t r)"
  have r: "r < ?N" "r + 1 < ?N" using c by (simp_all add: can_swap_def)
  have len: "length ?os = ?N" "length ?rk = ?N"
    using i by (simp_all add: DatedTree_inv_def)
  have n1: "?n1 < ?N" "?rk ! ?n1 = r" using ranks_os [OF i r(1)] by simp_all
  have n2: "?n2 < ?N" "?rk ! ?n2 = r + 1" using ranks_os [OF i r(2)] by simp_all
  have ne: "?n1 \<noteq> ?n2" using n1 n2 by auto
  have inv3: "\<And>n. n < ?N \<Longrightarrow> ?rk ! n < ?N \<and> ?os ! (?rk ! n) = n"
    using i by (simp add: DatedTree_inv_def)
  have inv4: "\<And>c p. c < ?N \<Longrightarrow> parent (node ?T c) = Some p \<Longrightarrow> ?rk ! p < ?rk ! c"
    using i by (simp add: DatedTree_inv_def)
  have wf: "wf_tree ?T" using i by (simp add: DatedTree_inv_def)
  have rk': "\<And>x. ?rk' ! x = (if x = ?n2 then r else if x = ?n1 then r + 1 else ?rk ! x)"
    using n1(1) n2(1) len by (simp add: swap_ranks_def nth_list_update)
  have os': "\<And>k. k < ?N \<Longrightarrow> ?os' ! k = (if k = r then ?n2 else if k = r + 1 then ?n1 else ?os ! k)"
    using r len by (simp add: swap_ranks_def nth_list_update)
  have other: "\<And>n. n < ?N \<Longrightarrow> n \<noteq> ?n1 \<Longrightarrow> n \<noteq> ?n2 \<Longrightarrow> ?rk ! n \<noteq> r \<and> ?rk ! n \<noteq> r + 1"
    using inv3 by metis
  have T': "rootedTree (swap_ranks t r) = ?T" "fromBL (swap_ranks t r) = fromBL t"
    by (simp_all add: swap_ranks_def)
  have l': "length ?os' = ?N" "length ?rk' = ?N" using len by (simp_all add: swap_ranks_def)
  have p3: "\<forall>n < ?N. ?rk' ! n < ?N \<and> ?os' ! (?rk' ! n) = n"
  proof (intro allI impI)
    fix n assume n: "n < ?N"
    show "?rk' ! n < ?N \<and> ?os' ! (?rk' ! n) = n"
    proof (cases "n = ?n1 \<or> n = ?n2")
      case True
      then show ?thesis using r ne by (auto simp: rk' os')
    next
      case False
      then show ?thesis using other [OF n] inv3 [OF n] by (simp add: rk' os')
    qed
  qed
  have p4: "\<forall>c < ?N. \<forall>p. parent (node ?T c) = Some p \<longrightarrow> ?rk' ! p < ?rk' ! c"
  proof (intro allI impI)
    fix c p assume cN: "c < ?N" and par: "parent (node ?T c) = Some p"
    have pN: "p < ?N" using parent_valid [OF wf cN par] .
    have lt: "?rk ! p < ?rk ! c" using inv4 [OF cN par] .
    consider "c = ?n2" | "c = ?n1" | "c \<noteq> ?n1" "c \<noteq> ?n2" by blast
    then show "?rk' ! p < ?rk' ! c"
    proof cases
      case 1
      then have "p \<noteq> ?n1" using par c by (simp add: can_swap_def)
      moreover have "p \<noteq> ?n2" using lt 1 by auto
      ultimately show ?thesis using lt 1 n2 other [OF pN] by (simp add: rk')
    next
      case 2
      then have "p \<noteq> ?n1" "p \<noteq> ?n2" using lt n1 n2 by auto
      then show ?thesis using lt 2 n1 ne by (simp add: rk')
    next
      case 3
      then show ?thesis using lt n1 n2 other [OF cN] by (auto simp: rk')
    qed
  qed
  have p5: "left (node ?T (getRoot ?T)) \<noteq> None \<and>
        (\<forall>k < ?N. (left (node ?T (?os' ! k)) \<noteq> None) = (k < getInnerNodeNumber ?T))"
  proof -
    have old: "left (node ?T (getRoot ?T)) \<noteq> None"
      "\<And>k. k < ?N \<Longrightarrow> (left (node ?T (?os ! k)) \<noteq> None) = (k < getInnerNodeNumber ?T)"
      using d i by (simp_all add: DatedTree_inv_def)
    have "left (node ?T ?n1) \<noteq> None" "left (node ?T ?n2) \<noteq> None"
      using c by (simp_all add: can_swap_def)
    then have "r < getInnerNodeNumber ?T" "r + 1 < getInnerNodeNumber ?T"
      using old(2) [OF r(1)] old(2) [OF r(2)] by simp_all
    then show ?thesis using old c by (auto simp: os' can_swap_def)
  qed
  show ?thesis
    unfolding DatedTree_inv_def T' using wf l' p3 p4 p5 by blast
qed

lemma swap_ranks_fields:
  "fromBL (swap_ranks t r) = fromBL t" "rootedTree (swap_ranks t r) = rootedTree t"
  by (simp_all add: swap_ranks_def)

lemma moveUp_dated:
  assumes d: "fromBL t" and i: "DatedTree_inv t"
  shows "moveUp t r = Inr (if 0 < r \<and> can_swap t (r - 1) then (True, swap_ranks t (r - 1))
     else (False, t))"
  using d moveDown_dated [OF d i, of "r - 1"] by (simp add: moveUp_def)

lemma do_move_inv:
  assumes d: "fromBL t" and i: "DatedTree_inv t"
  shows "\<exists>b t'. do_move t m = Inr (b, t') \<and> fromBL t' \<and> DatedTree_inv t'
    \<and> rootedTree t' = rootedTree t \<and> (\<not> b \<longrightarrow> t' = t)"
proof (cases m)
  case (MoveUp r)
  then show ?thesis
    using d i moveUp_dated [OF d i, of r] swap_ranks_inv [OF d i, of "r - 1"]
    by (auto simp: swap_ranks_fields)
next
  case (MoveDown r)
  then show ?thesis
    using d i moveDown_dated [OF d i, of r] swap_ranks_inv [OF d i, of r]
    by (auto simp: swap_ranks_fields)
qed

lemma do_moves_inv:
  "fromBL t \<Longrightarrow> DatedTree_inv t \<Longrightarrow>
   \<exists>t'. do_moves t ms = Inr t' \<and> fromBL t' \<and> DatedTree_inv t' \<and> rootedTree t' = rootedTree t"
proof (induction ms arbitrary: t)
  case Nil
  then show ?case by simp
next
  case (Cons m ms)
  from do_move_inv [OF Cons.prems, of m] obtain b t1 where
    s: "do_move t m = Inr (b, t1)" "fromBL t1" "DatedTree_inv t1" "rootedTree t1 = rootedTree t"
    by blast
  from Cons.IH [OF s(2,3)] s(1,4) show ?case by auto
qed

lemma moveDown_False: "moveDown t r = Inr (False, t') \<Longrightarrow> t' = t"
  by (auto simp: moveDown_def Let_def split: if_splits)

lemma moveUp_False: "moveUp t r = Inr (False, t') \<Longrightarrow> t' = t"
  by (auto simp: moveUp_def dest: moveDown_False split: if_splits)

lemma swap_ranks_twice:
  assumes d: "fromBL t" and i: "DatedTree_inv t" and c: "can_swap t r"
  shows "can_swap (swap_ranks t r) r \<and> swap_ranks (swap_ranks t r) r = t"
proof -
  let ?T = "rootedTree t"
  let ?N = "getNodeNumber ?T"
  let ?os = "orderedSpeciations t" and ?rk = "ranks t"
  let ?n1 = "?os ! r" and ?n2 = "?os ! (r + 1)"
  have r: "r < ?N" "r + 1 < ?N" using c by (simp_all add: can_swap_def)
  have len: "length ?os = ?N" "length ?rk = ?N"
    using i by (simp_all add: DatedTree_inv_def)
  have n1: "?n1 < ?N" "?rk ! ?n1 = r" using ranks_os [OF i r(1)] by simp_all
  have n2: "?n2 < ?N" "?rk ! ?n2 = r + 1" using ranks_os [OF i r(2)] by simp_all
  have ne: "?n1 \<noteq> ?n2" using n1 n2 by auto
  have os1: "orderedSpeciations (swap_ranks t r) ! r = ?n2"
    "orderedSpeciations (swap_ranks t r) ! Suc r = ?n1"
    using r len by (simp_all add: swap_ranks_def)
  have "parent (node ?T ?n1) \<noteq> Some ?n2"
  proof
    assume "parent (node ?T ?n1) = Some ?n2"
    then have "?rk ! ?n2 < ?rk ! ?n1" using i n1(1) by (simp add: DatedTree_inv_def)
    then show False using n1 n2 by simp
  qed
  then have a: "can_swap (swap_ranks t r) r"
    using c by (simp add: can_swap_def os1 swap_ranks_fields)
  have "((((?os)[r + 1 := ?n1])[r := ?n2])[r + 1 := ?n2])[r := ?n1] = ?os"
    using r len by (simp add: list_eq_iff_nth_eq nth_list_update)
  moreover have "((((?rk)[?n1 := r + 1])[?n2 := r])[?n2 := r + 1])[?n1 := r] = ?rk"
    using n1 n2 len by (auto simp: list_eq_iff_nth_eq nth_list_update)
  ultimately have "swap_ranks (swap_ranks t r) r = t"
    using r len by (simp add: swap_ranks_def)
  with a show ?thesis by simp
qed

lemma example_subtree:
  "subtree (tree_nodes example_tree) 6 [6, 4, 0, 1, 5, 2, 3]"
proof -
  let ?ns = "tree_nodes example_tree"
  have l: "subtree ?ns 0 [0]" "subtree ?ns 1 [1]" "subtree ?ns 2 [2]" "subtree ?ns 3 [3]"
    by (rule subtree.leaf; simp add: example_tree_def)+
  have a: "subtree ?ns 4 (4 # [0] @ [1])"
    by (rule subtree.inner [OF _ _ _ _ _ l(1) l(2)]; simp add: example_tree_def)
  have b: "subtree ?ns 5 (5 # [2] @ [3])"
    by (rule subtree.inner [OF _ _ _ _ _ l(3) l(4)]; simp add: example_tree_def)
  have "subtree ?ns 6 (6 # (4 # [0] @ [1]) @ (5 # [2] @ [3]))"
    by (rule subtree.inner [OF _ _ _ _ _ a b]; simp add: example_tree_def)
  then show ?thesis by simp
qed

lemma example_wf: "wf_tree example_tree"
proof -
  have "set [6, 4, 0, 1, 5, 2, 3::nat] = {..<7}" by auto
  then show ?thesis
    unfolding wf_tree_def using example_subtree
    by (intro conjI exI [of _ "[6, 4, 0, 1, 5, 2, 3]"]) (simp_all add: example_tree_def node_def)
qed

lemma example_inv: "DatedTree_inv example_dated"
  unfolding DatedTree_inv_def
  using example_wf
  by (auto simp: example_dated_def example_tree_def getNodeNumber_def getInnerNodeNumber_def
      getRoot_def node_def less_Suc_eq)

lemma example_fromBL: "fromBL example_dated"
  by (simp add: example_dated_def)

text \<open>
  Claim C3: on a tree in dated mode that satisfies the invariants of the data
  model, every sequence of \<^verbatim>\<open>moveUp\<close> and \<^verbatim>\<open>moveDown\<close> calls returns, and after it
  the invariants hold again: a parent has a lower rank than its child, and
  \<^verbatim>\<open>orderedSpeciations[ranks[n]] == n\<close> for every node \<open>n\<close>. Every single call
  returns true or false, and a call that returns false leaves the tree as it
  was (on any tree at all).
\<close>

theorem moves_keep_invariants:
  assumes "fromBL t" and "DatedTree_inv t"
  shows "(\<exists>t'. do_moves t ms = Inr t' \<and> fromBL t' \<and> DatedTree_inv t' \<and>
            rootedTree t' = rootedTree t \<and>
            (\<forall>c < getNodeNumber (rootedTree t'). \<forall>p.
               parent (node (rootedTree t') c) = Some p \<longrightarrow> ranks t' ! p < ranks t' ! c) \<and>
            (\<forall>n < getNodeNumber (rootedTree t').
               orderedSpeciations t' ! (ranks t' ! n) = n)) \<and>
         (\<exists>b t'. do_move t m = Inr (b, t') \<and> (\<not> b \<longrightarrow> t' = t)) \<and>
         (\<forall>u r u'. moveDown u r = Inr (False, u') \<longrightarrow> u' = u) \<and>
         (\<forall>u r u'. moveUp u r = Inr (False, u') \<longrightarrow> u' = u)"
proof -
  from do_moves_inv [OF assms, of ms] obtain t' where
    t': "do_moves t ms = Inr t'" "fromBL t'" "DatedTree_inv t'" "rootedTree t' = rootedTree t"
    by blast
  have "\<forall>c < getNodeNumber (rootedTree t'). \<forall>p.
      parent (node (rootedTree t') c) = Some p \<longrightarrow> ranks t' ! p < ranks t' ! c"
    using t'(3) by (simp add: DatedTree_inv_def)
  moreover have "\<forall>n < getNodeNumber (rootedTree t'). orderedSpeciations t' ! (ranks t' ! n) = n"
    using t'(3) by (simp add: DatedTree_inv_def)
  moreover have "\<exists>b t'. do_move t m = Inr (b, t') \<and> (\<not> b \<longrightarrow> t' = t)"
    using do_move_inv [OF assms, of m] by blast
  ultimately show ?thesis using t' moveDown_False moveUp_False by blast
qed

theorem moves_keep_invariants_witness:
  "fromBL example_dated \<and> DatedTree_inv example_dated \<and>
   (\<exists>t'. do_moves example_dated [MoveUp 2, MoveDown 0, MoveDown 1, MoveUp 9] = Inr t' \<and>
      DatedTree_inv t') \<and>
   (\<exists>b t'. do_move example_dated (MoveDown 0) = Inr (b, t') \<and> (b \<or> t' = example_dated))"
  using moves_keep_invariants [OF example_fromBL example_inv,
      of "[MoveUp 2, MoveDown 0, MoveDown 1, MoveUp 9]" "MoveDown 0"]
    example_fromBL example_inv
  by blast

text \<open>
  Claim C4: on a tree in dated mode that satisfies the invariants, if
  \<^verbatim>\<open>moveUp(r)\<close> returns true, then \<^verbatim>\<open>moveUp(r)\<close> called again right after it returns
  true too and gives back the tree of before the first call, with the same
  \<^verbatim>\<open>ranks\<close> and \<^verbatim>\<open>orderedSpeciations\<close>.
\<close>

theorem moveUp_twice:
  assumes "fromBL t" and "DatedTree_inv t" and "moveUp t r = Inr (True, t')"
  shows "\<exists>t''. moveUp t' r = Inr (True, t'') \<and> t'' = t \<and> ranks t'' = ranks t \<and>
    orderedSpeciations t'' = orderedSpeciations t"
proof -
  from assms(3) moveUp_dated [OF assms(1,2), of r]
  have c: "0 < r" "can_swap t (r - 1)" and t': "t' = swap_ranks t (r - 1)"
    by (auto split: if_splits)
  have i': "DatedTree_inv t'" and d': "fromBL t'"
    using swap_ranks_inv [OF assms(1,2) c(2)] assms(1) t' by (simp_all add: swap_ranks_fields)
  from swap_ranks_twice [OF assms(1,2) c(2)] t'
  have "can_swap t' (r - 1)" "swap_ranks t' (r - 1) = t" by simp_all
  then have "moveUp t' r = Inr (True, t)"
    using moveUp_dated [OF d' i', of r] c(1) by simp
  then show ?thesis by simp
qed

theorem moveUp_twice_witness:
  "fromBL example_dated \<and> DatedTree_inv example_dated \<and>
   moveUp example_dated 2 =
     Inr (True, example_dated\<lparr>orderedSpeciations := [6, 5, 4, 0, 1, 2, 3],
                              ranks := [3, 4, 5, 6, 2, 1, 0]\<rparr>) \<and>
   moveUp (example_dated\<lparr>orderedSpeciations := [6, 5, 4, 0, 1, 2, 3],
                         ranks := [3, 4, 5, 6, 2, 1, 0]\<rparr>) 2 = Inr (True, example_dated)"
proof -
  have m: "moveUp example_dated 2 =
     Inr (True, example_dated\<lparr>orderedSpeciations := [6, 5, 4, 0, 1, 2, 3],
                              ranks := [3, 4, 5, 6, 2, 1, 0]\<rparr>)"
    by (simp add: moveUp_def moveDown_def example_dated_def example_tree_def node_def Let_def)
  show ?thesis
    using moveUp_twice [OF example_fromBL example_inv m] m example_fromBL example_inv
    by simp
qed

text \<open>
  Claim C6: for node indices \<open>e\<close> and \<open>d\<close> of a tree that satisfies the
  invariants, \<^verbatim>\<open>canTransferUnderRelDated(e, d)\<close> is false when \<open>d = e\<close>, true when
  \<open>e\<close> has no parent and \<open>d \<noteq> e\<close>, and otherwise true exactly when the rank of \<open>d\<close>
  is above the rank of the parent of \<open>e\<close>; it is true whenever \<open>d\<close> is a child of
  \<open>e\<close>, a leaf child in particular. (The function reads neither \<^verbatim>\<open>_fromBL\<close> nor
  \<^verbatim>\<open>_orderedSpeciations\<close>.)
\<close>

theorem canTransferUnderRelDated_cases:
  assumes "DatedTree_inv t"
    and "e < getNodeNumber (rootedTree t)" and "d < getNodeNumber (rootedTree t)"
  shows "canTransferUnderRelDated t e d =
      Inr (if d = e then False
           else case parent (node (rootedTree t) e) of
                  None \<Rightarrow> True
                | Some p \<Rightarrow> ranks t ! d > ranks t ! p) \<and>
    (parent (node (rootedTree t) d) = Some e \<longrightarrow> canTransferUnderRelDated t e d = Inr True)"
proof -
  let ?T = "rootedTree t"
  have len: "length (ranks t) = getNodeNumber ?T" and wf: "wf_tree ?T"
    using assms(1) by (simp_all add: DatedTree_inv_def)
  have ord: "\<And>c p. c < getNodeNumber ?T \<Longrightarrow> parent (node ?T c) = Some p
      \<Longrightarrow> ranks t ! p < ranks t ! c"
    using assms(1) by (simp add: DatedTree_inv_def)
  have first: "canTransferUnderRelDated t e d =
      Inr (if d = e then False
           else case parent (node ?T e) of None \<Rightarrow> True | Some p \<Rightarrow> ranks t ! d > ranks t ! p)"
    using assms(2,3) len parent_valid [OF wf assms(2)]
    by (simp add: canTransferUnderRelDated_def split: option.split)
  have second: "canTransferUnderRelDated t e d = Inr True"
    if ch: "parent (node ?T d) = Some e"
  proof -
    have lt: "ranks t ! e < ranks t ! d" using ord [OF assms(3) ch] .
    then have ne: "d \<noteq> e" by auto
    show ?thesis
    proof (cases "parent (node ?T e)")
      case None
      then show ?thesis using first ne by simp
    next
      case (Some p)
      then have "ranks t ! p < ranks t ! e" using ord [OF assms(2)] by simp
      then show ?thesis using first ne Some lt by simp
    qed
  qed
  show ?thesis
  proof (rule conjI [OF first], rule impI)
    assume "parent (node ?T d) = Some e"
    then show "canTransferUnderRelDated t e d = Inr True" by (rule second)
  qed
qed

theorem canTransferUnderRelDated_cases_witness:
  "DatedTree_inv example_dated \<and>
   canTransferUnderRelDated example_dated 4 4 = Inr False \<and>
   canTransferUnderRelDated example_dated 6 0 = Inr True \<and>
   canTransferUnderRelDated example_dated 4 2 = Inr True \<and>
   canTransferUnderRelDated example_dated 0 4 = Inr False \<and>
   canTransferUnderRelDated example_dated 4 1 = Inr True"
proof -
  have n: "getNodeNumber (rootedTree example_dated) = 7"
    by (simp add: example_dated_def example_tree_def getNodeNumber_def)
  have p: "parent (node (rootedTree example_dated) 4) = Some 6"
    "parent (node (rootedTree example_dated) 6) = None"
    "parent (node (rootedTree example_dated) 0) = Some 4"
    "parent (node (rootedTree example_dated) 1) = Some 4"
    by (simp_all add: example_dated_def example_tree_def node_def)
  have r: "ranks example_dated ! 6 = 0" "ranks example_dated ! 4 = 1"
    "ranks example_dated ! 2 = 5" "ranks example_dated ! Suc 0 = 4"
    by (simp_all add: example_dated_def)
  show ?thesis
    using canTransferUnderRelDated_cases [OF example_inv, of 4 4]
      canTransferUnderRelDated_cases [OF example_inv, of 6 0]
      canTransferUnderRelDated_cases [OF example_inv, of 4 2]
      canTransferUnderRelDated_cases [OF example_inv, of 0 4]
      canTransferUnderRelDated_cases [OF example_inv, of 4 1]
      example_inv
    by (simp add: n p r)
qed

section \<open>Backup, restore and randomize\<close>

lemma restore_loop_writes:
  assumes "inj_on (\<lambda>n. rk ! n) {..<length rk}"
    and "\<forall>n \<in> set sp. n < length rk \<and> rk ! n < length os"
  shows "\<exists>os'. restore_loop rk sp os = Inr os' \<and> length os' = length os \<and>
    (\<forall>n \<in> set sp. os' ! (rk ! n) = n) \<and>
    (\<forall>k. k \<notin> (\<lambda>n. rk ! n) ` set sp \<longrightarrow> os' ! k = os ! k)"
  using assms(2)
proof (induction sp arbitrary: os)
  case Nil
  then show ?case by simp
next
  case (Cons n sp)
  let ?os1 = "os[rk ! n := n]"
  have n: "n < length rk" "rk ! n < length os" using Cons.prems by simp_all
  have "\<forall>m \<in> set sp. m < length rk \<and> rk ! m < length ?os1" using Cons.prems by simp
  from Cons.IH [OF this] obtain os' where os':
    "restore_loop rk sp ?os1 = Inr os'" "length os' = length os"
    "\<forall>m \<in> set sp. os' ! (rk ! m) = m"
    "\<forall>k. k \<notin> (\<lambda>m. rk ! m) ` set sp \<longrightarrow> os' ! k = ?os1 ! k"
    by auto
  have "os' ! (rk ! n) = n"
  proof (cases "rk ! n \<in> (\<lambda>m. rk ! m) ` set sp")
    case True
    then obtain m where m: "m \<in> set sp" "rk ! m = rk ! n" by auto
    then have "m < length rk" using Cons.prems by simp
    then have "m = n" using m(2) n(1) assms(1) by (auto dest: inj_onD)
    then show ?thesis using os'(3) m(1) by simp
  next
    case False
    then show ?thesis using os'(4) n(2) by simp
  qed
  moreover have "\<forall>k. k \<notin> (\<lambda>m. rk ! m) ` set (n # sp) \<longrightarrow> os' ! k = os ! k"
    using os'(4) by simp
  ultimately show ?case using os'(1,2,3) n by simp
qed

lemma inv_lengths:
  assumes "DatedTree_inv t"
  shows "length (orderedSpeciations t) = getNodeNumber (rootedTree t)"
    "length (ranks t) = getNodeNumber (rootedTree t)"
  using assms by (simp_all add: DatedTree_inv_def)

lemma inv_ranks:
  assumes "DatedTree_inv t" "n < getNodeNumber (rootedTree t)"
  shows "ranks t ! n < getNodeNumber (rootedTree t)"
    "orderedSpeciations t ! (ranks t ! n) = n"
  using assms by (simp_all add: DatedTree_inv_def)

lemma inv_set_os:
  assumes "DatedTree_inv t"
  shows "set (orderedSpeciations t) = {..<getNodeNumber (rootedTree t)}"
proof (rule set_eqI)
  fix n
  let ?N = "getNodeNumber (rootedTree t)"
  show "n \<in> set (orderedSpeciations t) \<longleftrightarrow> n \<in> {..<?N}"
  proof
    assume "n \<in> set (orderedSpeciations t)"
    then obtain k where "k < ?N" "orderedSpeciations t ! k = n"
      using inv_lengths(1) [OF assms] by (auto simp: in_set_conv_nth)
    then show "n \<in> {..<?N}" using ranks_os [OF assms, of k] by auto
  next
    assume "n \<in> {..<?N}"
    then have n: "n < ?N" by simp
    have "ranks t ! n < length (orderedSpeciations t)"
      using inv_ranks(1) [OF assms n] inv_lengths(1) [OF assms] by simp
    then have "orderedSpeciations t ! (ranks t ! n) \<in> set (orderedSpeciations t)"
      by (rule nth_mem)
    then show "n \<in> set (orderedSpeciations t)" using inv_ranks(2) [OF assms n] by simp
  qed
qed

text \<open>Restoring a backup that was taken from a tree \<open>t\<close>, on a tree \<open>t'\<close> with the
  same topology that satisfies the invariants, gives \<open>t\<close> back.\<close>

lemma restore_backup:
  assumes i: "DatedTree_inv t" and i': "DatedTree_inv t'"
    and T: "rootedTree t' = rootedTree t" and d: "fromBL t' = fromBL t"
  shows "restore t' (getBackup t) = Inr t"
proof -
  let ?N = "getNodeNumber (rootedTree t)"
  let ?rk = "ranks t"
  have len: "length ?rk = ?N" "length (orderedSpeciations t) = ?N"
    "length (orderedSpeciations t') = ?N"
    using inv_lengths [OF i] inv_lengths [OF i'] T by simp_all
  have inj: "inj_on (\<lambda>n. ?rk ! n) {..<length ?rk}"
  proof (rule inj_onI)
    fix x y assume "x \<in> {..<length ?rk}" "y \<in> {..<length ?rk}" and e: "?rk ! x = ?rk ! y"
    then have xy: "x < ?N" "y < ?N" unfolding len by simp_all
    have "x = orderedSpeciations t ! (?rk ! x)" using inv_ranks(2) [OF i xy(1)] by (rule sym)
    also have "\<dots> = orderedSpeciations t ! (?rk ! y)" by (simp only: e)
    also have "\<dots> = y" using inv_ranks(2) [OF i xy(2)] .
    finally show "x = y" .
  qed
  have sp: "set (orderedSpeciations t') = {..<?N}" using inv_set_os [OF i'] T by simp
  have "\<forall>n \<in> set (orderedSpeciations t'). n < length ?rk \<and> ?rk ! n < length (orderedSpeciations t')"
  proof
    fix n assume "n \<in> set (orderedSpeciations t')"
    then have n: "n < ?N" unfolding sp by simp
    show "n < length ?rk \<and> ?rk ! n < length (orderedSpeciations t')"
      using n inv_ranks(1) [OF i n] unfolding len by simp
  qed
  from restore_loop_writes [OF inj this] obtain os' where os':
    "restore_loop ?rk (orderedSpeciations t') (orderedSpeciations t') = Inr os'"
    "length os' = ?N" "\<forall>n \<in> set (orderedSpeciations t'). os' ! (?rk ! n) = n"
    using len by auto
  have "os' = orderedSpeciations t"
  proof (rule nth_equalityI)
    show "length os' = length (orderedSpeciations t)" using os'(2) len by simp
  next
    fix k assume "k < length os'"
    then have k: "k < ?N" using os'(2) by simp
    let ?n = "orderedSpeciations t ! k"
    have n: "?n < ?N" "?rk ! ?n = k" using ranks_os [OF i k] by simp_all
    then have "?n \<in> set (orderedSpeciations t')" unfolding sp by simp
    then have "os' ! (?rk ! ?n) = ?n" using os'(3) by blast
    then show "os' ! k = orderedSpeciations t ! k" using n(2) by simp
  qed
  then have "restore t' (getBackup t) = Inr (t'\<lparr>ranks := ranks t, orderedSpeciations := orderedSpeciations t\<rparr>)"
    using os'(1) by (simp add: restore_def getBackup_def)
  moreover have "t'\<lparr>ranks := ranks t, orderedSpeciations := orderedSpeciations t\<rparr> = t"
    using T d by (simp add: DatedTree.equality)
  ultimately show ?thesis by simp
qed

lemma frontier_nodes_sum: "frontier_nodes zs = (\<Sum>z \<in># mset zs. mset (snd z))"
  by (induction zs) (simp_all add: frontier_nodes_def)

lemma mset_nth_split: "i < length zs \<Longrightarrow> mset zs = add_mset (zs ! i) (mset zs - {#zs ! i#})"
  by (simp add: nth_mem_mset)

lemma frontier_nodes_inner:
  assumes "i < length zs" "snd (zs ! i) = n # ls @ rs"
  shows "frontier_nodes zs = add_mset n (frontier_nodes (zs[i := (l, ls)] @ [(r, rs)]))"
proof -
  let ?A = "mset zs - {#zs ! i#}"
  have "frontier_nodes zs = (\<Sum>z \<in># add_mset (zs ! i) ?A. mset (snd z))"
    using mset_nth_split [OF assms(1)] by (simp add: frontier_nodes_sum)
  moreover have "mset (zs[i := (l, ls)] @ [(r, rs)]) = add_mset (r, rs) (add_mset (l, ls) ?A)"
    using assms(1) by (simp add: mset_update)
  ultimately show ?thesis using assms(2) by (simp add: frontier_nodes_sum)
qed

lemma mset_butlast_update:
  assumes "i < length zs"
  shows "mset zs = add_mset (zs ! i) (mset (butlast (zs[i := last zs])))"
proof -
  have ne: "zs \<noteq> []" using assms by auto
  then have sp: "zs = butlast zs @ [last zs]" by simp
  show ?thesis
  proof (cases "i = length zs - 1")
    case True
    then have "zs ! i = last zs" using ne by (simp add: last_conv_nth)
    then have "zs[i := last zs] = zs" by (metis list_update_id)
    then show ?thesis using sp \<open>zs ! i = last zs\<close>
      by (metis mset.simps(2) mset_append add_mset_add_single mset.simps(1) union_mset_add_mset_right add.right_neutral)
  next
    case False
    then have i: "i < length (butlast zs)" using assms by simp
    have "butlast (zs[i := last zs]) = (butlast zs)[i := last zs]"
      using False by (simp add: butlast_list_update)
    then have "mset (butlast (zs[i := last zs]))
        = add_mset (last zs) (mset (butlast zs) - {#butlast zs ! i#})"
      using i by (simp add: mset_update)
    moreover have "butlast zs ! i = zs ! i" using i by (simp add: nth_butlast)
    moreover have "mset zs = add_mset (last zs) (mset (butlast zs))"
      using sp by (metis mset.simps(2) mset_append add_mset_add_single mset.simps(1) union_mset_add_mset_right add.right_neutral)
    moreover have "zs ! i \<in># mset (butlast zs)"
      using i \<open>butlast zs ! i = zs ! i\<close> by (metis nth_mem_mset)
    ultimately show ?thesis by simp
  qed
qed

lemma frontier_nodes_leaf:
  assumes "i < length zs" "snd (zs ! i) = [n]"
  shows "frontier_nodes zs = add_mset n (frontier_nodes (butlast (zs[i := last zs])))"
proof -
  have "frontier_nodes zs
      = (\<Sum>z \<in># add_mset (zs ! i) (mset (butlast (zs[i := last zs]))). mset (snd z))"
    using mset_butlast_update [OF assms(1)] by (simp add: frontier_nodes_sum)
  then show ?thesis using assms(2) by (simp add: frontier_nodes_sum)
qed

lemma set_butlast_update: "set (butlast (zs[i := last zs])) \<subseteq> set zs"
proof (cases "zs = []")
  case True
  then show ?thesis by simp
next
  case False
  have "set (butlast (zs[i := last zs])) \<subseteq> set (zs[i := last zs])"
    by (auto dest: in_set_butlastD)
  also have "\<dots> \<subseteq> insert (last zs) (set zs)" by (rule set_update_subset_insert)
  also have "\<dots> = set zs" using False by (simp add: insert_absorb)
  finally show ?thesis .
qed

lemma inner_count:
  assumes "distinct all" "set all = {..<length (tree_nodes T)}"
  shows "size (filter_mset (internal T) (mset all)) = getInnerNodeNumber T"
proof -
  let ?ns = "tree_nodes T"
  have "set all = set [0..<length ?ns]" unfolding assms(2) by auto
  then have "mset all = mset [0..<length ?ns]"
    by (rule set_eq_iff_mset_eq_distinct [THEN iffD1, OF assms(1) distinct_upt])
  then have "size (filter_mset (internal T) (mset all))
      = length (filter (internal T) [0..<length ?ns])"
    by (metis mset_filter size_mset)
  also have "\<dots> = length (map (\<lambda>i. ?ns ! i) (filter (internal T) [0..<length ?ns]))" by simp
  also have "map (\<lambda>i. ?ns ! i) (filter (internal T) [0..<length ?ns])
      = filter (\<lambda>n. left n \<noteq> None) (map (\<lambda>i. ?ns ! i) [0..<length ?ns])"
  proof -
    have "internal T = (\<lambda>i. left (?ns ! i) \<noteq> None)"
      by (rule ext) (simp add: internal_def node_def)
    then show ?thesis by (simp add: filter_map comp_def)
  qed
  also have "map (\<lambda>i. ?ns ! i) [0..<length ?ns] = ?ns" by (rule map_nth)
  finally show ?thesis by (simp add: getInnerNodeNumber_def)
qed

lemma subtree_parent_inner:
  "subtree ns n xs \<Longrightarrow> x \<in> set xs \<Longrightarrow> x \<noteq> n \<Longrightarrow>
     \<exists>q \<in> set xs. parent (ns ! x) = Some q \<and> left (ns ! q) \<noteq> None"
proof (induction arbitrary: x rule: subtree.induct)
  case (leaf n)
  then show ?case by simp
next
  case (inner n l r ls rs)
  from inner.prems have "x \<in> set ls \<or> x \<in> set rs" by auto
  then show ?case
  proof
    assume "x \<in> set ls"
    then show ?thesis using inner.hyps(2,4) inner.IH(1) [of x] by (cases "x = l") auto
  next
    assume "x \<in> set rs"
    then show ?thesis using inner.hyps(2,5) inner.IH(2) [of x] by (cases "x = r") auto
  qed
qed

lemma parent_internal:
  assumes "wf_tree T" "c < getNodeNumber T" "parent (node T c) = Some p"
  shows "internal T p"
proof -
  from wf_treeD(4) [OF assms(1)] obtain xs where xs: "subtree (tree_nodes T) (tree_root T) xs"
    "set xs = {..<length (tree_nodes T)}"
    by blast
  have "c \<in> set xs" using assms(2) unfolding xs(2) getNodeNumber_def by simp
  moreover have "c \<noteq> tree_root T" using wf_treeD(3) [OF assms(1)] assms(3) by auto
  ultimately obtain q where q: "parent (tree_nodes T ! c) = Some q" "left (tree_nodes T ! q) \<noteq> None"
    using subtree_parent_inner [OF xs(1)] by blast
  then show ?thesis using assms(3) by (simp add: node_def internal_def)
qed

lemma randomize_invD:
  assumes "randomize_inv T all os0 rk0 zs c os rk"
  shows "length os = getNodeNumber T" "length rk = getNodeNumber T" "c \<le> getNodeNumber T"
    "\<And>z. z \<in> set zs \<Longrightarrow> subtree (tree_nodes T) (fst z) (snd z)"
    "filter_mset (internal T) (frontier_nodes zs) + mset (take c os)
       = filter_mset (internal T) (mset all)"
    "\<And>z p. z \<in> set zs \<Longrightarrow> parent (node T (fst z)) = Some p \<Longrightarrow> \<exists>j<c. os ! j = p"
    "\<And>j. j < c \<Longrightarrow> rk ! (os ! j) = j"
    "\<And>j. getInnerNodeNumber T \<le> j \<Longrightarrow> os ! j = os0 ! j"
    "\<And>n. \<not> internal T n \<Longrightarrow> rk ! n = rk0 ! n"
    "\<And>j p. j < c \<Longrightarrow> parent (node T (os ! j)) = Some p \<Longrightarrow> \<exists>j'<j. os ! j' = p"
  using assms unfolding randomize_inv_def by blast+

lemma randomize_invI:
  assumes "length os = getNodeNumber T" "length rk = getNodeNumber T" "c \<le> getNodeNumber T"
    "\<And>z. z \<in> set zs \<Longrightarrow> subtree (tree_nodes T) (fst z) (snd z)"
    "filter_mset (internal T) (frontier_nodes zs) + mset (take c os)
       = filter_mset (internal T) (mset all)"
    "\<And>z p. z \<in> set zs \<Longrightarrow> parent (node T (fst z)) = Some p \<Longrightarrow> \<exists>j<c. os ! j = p"
    "\<And>j. j < c \<Longrightarrow> rk ! (os ! j) = j"
    "\<And>j. getInnerNodeNumber T \<le> j \<Longrightarrow> os ! j = os0 ! j"
    "\<And>n. \<not> internal T n \<Longrightarrow> rk ! n = rk0 ! n"
    "\<And>j p. j < c \<Longrightarrow> parent (node T (os ! j)) = Some p \<Longrightarrow> \<exists>j'<j. os ! j' = p"
  shows "randomize_inv T all os0 rk0 zs c os rk"
  unfolding randomize_inv_def using assms by blast

lemma size_filter_less:
  assumes "x \<in># M" "\<not> P x"
  shows "size (filter_mset P M) < size M"
proof -
  have "size M = size (filter_mset P M) + size (filter_mset (\<lambda>x. \<not> P x) M)"
    by (metis multiset_partition size_union)
  moreover have "x \<in># filter_mset (\<lambda>x. \<not> P x) M" using assms by simp
  then have "0 < size (filter_mset (\<lambda>x. \<not> P x) M)"
    by (metis empty_iff gr0I set_mset_empty size_eq_0_iff_empty)
  ultimately show ?thesis by simp
qed

text \<open>The visited nodes: what the invariant says about \<open>c\<close>.\<close>

lemma randomize_inv_count:
  assumes "distinct all" "set all = {..<length (tree_nodes T)}"
    and inv: "randomize_inv T all os0 rk0 zs c os rk"
  shows "size (filter_mset (internal T) (frontier_nodes zs)) + c = getInnerNodeNumber T"
proof -
  have "length (take c os) = c"
    using randomize_invD(1,3) [OF inv] by simp
  then have "size (filter_mset (internal T) (frontier_nodes zs) + mset (take c os))
      = size (filter_mset (internal T) (frontier_nodes zs)) + c"
    by simp
  then show ?thesis
    unfolding randomize_invD(5) [OF inv] inner_count [OF assms(1,2)] by simp
qed

lemma randomize_inv_fresh:
  assumes "distinct all"
    and inv: "randomize_inv T all os0 rk0 zs c os rk"
    and n: "n \<in># frontier_nodes zs" "internal T n"
  shows "n \<notin> set (take c os)"
proof
  assume "n \<in> set (take c os)"
  then have "1 \<le> count (mset (take c os)) n" by (simp add: count_greater_eq_one_iff)
  moreover have "1 \<le> count (filter_mset (internal T) (frontier_nodes zs)) n"
    using n by (simp add: count_greater_eq_one_iff)
  ultimately have "2 \<le> count (filter_mset (internal T) (frontier_nodes zs) + mset (take c os)) n"
    unfolding count_union by linarith
  then have "2 \<le> count (filter_mset (internal T) (mset all)) n"
    unfolding randomize_invD(5) [OF inv] .
  moreover have "count (mset all) n \<le> 1"
    using assms(1) by (simp add: distinct_count_atmost_1)
  ultimately show False by (simp split: if_splits)
qed

lemma randomize_inv_leaf:
  assumes inv: "randomize_inv T all os0 rk0 zs c os rk"
    and i: "i < length zs" and z: "zs ! i = (n, ns)" and lf: "left (node T n) = None"
  shows "frontier_nodes zs = add_mset n (frontier_nodes (butlast (zs[i := last zs])))
    \<and> randomize_inv T all os0 rk0 (butlast (zs[i := last zs])) c os rk"
proof -
  let ?zs' = "butlast (zs[i := last zs])"
  have mem: "(n, ns) \<in> set zs" using i z by (metis nth_mem)
  have "subtree (tree_nodes T) n ns" using randomize_invD(4) [OF inv mem] by simp
  then have ns: "ns = [n]" using lf subtree_leaf by (simp add: node_def)
  have fr: "frontier_nodes zs = add_mset n (frontier_nodes ?zs')"
    using frontier_nodes_leaf [OF i, of n] z ns by simp
  have ni: "\<not> internal T n" using lf by (simp add: internal_def)
  have sub: "set ?zs' \<subseteq> set zs" by (rule set_butlast_update)
  have "randomize_inv T all os0 rk0 ?zs' c os rk"
  proof (rule randomize_invI)
    show "filter_mset (internal T) (frontier_nodes ?zs') + mset (take c os)
        = filter_mset (internal T) (mset all)"
      using randomize_invD(5) [OF inv] ni unfolding fr by simp
  next
    fix z assume "z \<in> set ?zs'"
    then show "subtree (tree_nodes T) (fst z) (snd z)"
      using sub randomize_invD(4) [OF inv] by blast
  next
    fix z p assume "z \<in> set ?zs'" "parent (node T (fst z)) = Some p"
    then show "\<exists>j<c. os ! j = p" using sub randomize_invD(6) [OF inv] by blast
  qed (use randomize_invD [OF inv] in blast)+
  with fr show ?thesis by simp
qed

lemma randomize_inv_inner:
  assumes d: "distinct all" and s: "set all = {..<length (tree_nodes T)}"
    and inv: "randomize_inv T all os0 rk0 zs c os rk"
    and i: "i < length zs" and z: "zs ! i = (n, ns)" and lf: "left (node T n) = Some l"
  shows "\<exists>r ls rs. right (node T n) = Some r \<and> c < getInnerNodeNumber T \<and>
    n < getNodeNumber T \<and>
    frontier_nodes zs = add_mset n (frontier_nodes (zs[i := (l, ls)] @ [(r, rs)])) \<and>
    randomize_inv T all os0 rk0 (zs[i := (l, ls)] @ [(r, rs)]) (c + 1) (os[c := n]) (rk[n := c])"
proof -
  have mem: "(n, ns) \<in> set zs" using i z by (metis nth_mem)
  have st: "subtree (tree_nodes T) n ns" using randomize_invD(4) [OF inv mem] by simp
  have lf': "left (tree_nodes T ! n) = Some l" using lf by (simp add: node_def)
  from subtree_inner [OF st lf'] obtain r ls rs where
    r: "right (tree_nodes T ! n) = Some r"
    and pl: "parent (tree_nodes T ! l) = Some n" and pr: "parent (tree_nodes T ! r) = Some n"
    and sl: "subtree (tree_nodes T) l ls" and sr: "subtree (tree_nodes T) r rs"
    and ns: "ns = n # ls @ rs"
    by blast
  let ?zs' = "zs[i := (l, ls)] @ [(r, rs)]"
  let ?os' = "os[c := n]" and ?rk' = "rk[n := c]"
  have fr: "frontier_nodes zs = add_mset n (frontier_nodes ?zs')"
    using frontier_nodes_inner [OF i, of n ls rs l r] z ns by simp
  have int: "internal T n" using lf by (simp add: internal_def)
  have nfr: "n \<in># frontier_nodes zs" unfolding fr by simp
  have fresh: "n \<notin> set (take c os)" using randomize_inv_fresh [OF d inv nfr int] .
  have cnt: "size (filter_mset (internal T) (frontier_nodes zs)) + c = getInnerNodeNumber T"
    using randomize_inv_count [OF d s inv] .
  have "n \<in># filter_mset (internal T) (frontier_nodes zs)" using nfr int by simp
  then have "0 < size (filter_mset (internal T) (frontier_nodes zs))"
    by (metis empty_iff gr0I set_mset_empty size_eq_0_iff_empty)
  then have cI: "c < getInnerNodeNumber T" using cnt by simp
  have IN: "getInnerNodeNumber T \<le> getNodeNumber T"
    by (simp add: getInnerNodeNumber_def getNodeNumber_def)
  have len: "length os = getNodeNumber T" "length rk = getNodeNumber T"
    using randomize_invD(1,2) [OF inv] by simp_all
  have cN: "c < length os" using cI IN len by simp
  have nN: "n < getNodeNumber T" using subtree_top [OF st] by (simp add: getNodeNumber_def)
  have tk: "take (c + 1) ?os' = take c os @ [n]"
    using cN by (simp add: take_Suc_conv_app_nth)
  have old: "\<And>j. j < c \<Longrightarrow> ?os' ! j = os ! j" by simp
  have oldn: "\<And>j. j < c \<Longrightarrow> os ! j \<noteq> n"
  proof
    fix j assume j: "j < c" and e: "os ! j = n"
    have "os ! j \<in> set (take c os)" using j cN by (auto simp: in_set_conv_nth)
    then show False using fresh e by simp
  qed
  have "randomize_inv T all os0 rk0 ?zs' (c + 1) ?os' ?rk'"
  proof (rule randomize_invI)
    show "length ?os' = getNodeNumber T" "length ?rk' = getNodeNumber T" using len by simp_all
    show "c + 1 \<le> getNodeNumber T" using cI IN by simp
  next
    fix z assume "z \<in> set ?zs'"
    then have "z \<in> set zs \<or> z = (l, ls) \<or> z = (r, rs)"
      using set_update_subset_insert [of zs i "(l, ls)"] by auto
    then show "subtree (tree_nodes T) (fst z) (snd z)"
      using randomize_invD(4) [OF inv] sl sr by auto
  next
    have "filter_mset (internal T) (frontier_nodes zs)
        = add_mset n (filter_mset (internal T) (frontier_nodes ?zs'))"
      unfolding fr using int by simp
    then show "filter_mset (internal T) (frontier_nodes ?zs') + mset (take (c + 1) ?os')
        = filter_mset (internal T) (mset all)"
      using randomize_invD(5) [OF inv] unfolding tk by simp
  next
    fix z p assume zz: "z \<in> set ?zs'" and par: "parent (node T (fst z)) = Some p"
    from zz have "z \<in> set zs \<or> z = (l, ls) \<or> z = (r, rs)"
      using set_update_subset_insert [of zs i "(l, ls)"] by auto
    then show "\<exists>j<c + 1. ?os' ! j = p"
    proof (elim disjE)
      assume "z \<in> set zs"
      from randomize_invD(6) [OF inv this par] obtain j where "j < c" "os ! j = p" by blast
      then show ?thesis using old [of j] by (intro exI [of _ j]) simp
    next
      assume "z = (l, ls)"
      then have "p = n" using par pl by (simp add: node_def)
      then show ?thesis using cN by (intro exI [of _ c]) simp
    next
      assume "z = (r, rs)"
      then have "p = n" using par pr by (simp add: node_def)
      then show ?thesis using cN by (intro exI [of _ c]) simp
    qed
  next
    fix j assume "j < c + 1"
    then consider "j < c" | "j = c" by linarith
    then show "?rk' ! (?os' ! j) = j"
    proof cases
      case 1
      then show ?thesis using oldn [OF 1] randomize_invD(7) [OF inv 1] by simp
    next
      case 2
      then show ?thesis using cN nN len by simp
    qed
  next
    fix j assume "getInnerNodeNumber T \<le> j"
    then show "?os' ! j = os0 ! j" using cI randomize_invD(8) [OF inv, of j] by simp
  next
    fix m assume m: "\<not> internal T m"
    then have "m \<noteq> n" using int by auto
    then show "?rk' ! m = rk0 ! m" using randomize_invD(9) [OF inv m] by simp
  next
    fix j p assume j: "j < c + 1" and par: "parent (node T (?os' ! j)) = Some p"
    from j consider "j < c" | "j = c" by linarith
    then show "\<exists>j'<j. ?os' ! j' = p"
    proof cases
      case 1
      then have "parent (node T (os ! j)) = Some p" using par by simp
      from randomize_invD(10) [OF inv 1 this] obtain j' where "j' < j" "os ! j' = p" by blast
      then show ?thesis using 1 by (intro exI [of _ j']) simp
    next
      case 2
      then have "parent (node T n) = Some p" using par cN by simp
      from randomize_invD(6) [OF inv mem] this obtain j' where "j' < c" "os ! j' = p" by auto
      then show ?thesis using 2 by (intro exI [of _ j']) simp
    qed
  qed
  then show ?thesis using r cI nN fr by (auto simp: node_def)
qed

lemma randomize_loop_returns:
  assumes d: "distinct all" and s: "set all = {..<length (tree_nodes T)}"
    and b: "length (tree_nodes T) \<le> 2 ^ 32" and lf: "\<exists>x \<in> set all. \<not> internal T x"
    and inv: "randomize_inv T all os0 rk0 zs c os rk"
  shows "\<exists>os' rk'. randomize_loop T rng k (map (Some \<circ> fst) zs) c os rk = Some (Inr (os', rk')) \<and>
    randomize_inv T all os0 rk0 [] (getInnerNodeNumber T) os' rk'"
  using inv
proof (induction "2 * size (frontier_nodes zs) + length zs" arbitrary: zs c os rk k
    rule: less_induct)
  case less
  note inv = less.prems
  have cnt: "size (filter_mset (internal T) (frontier_nodes zs)) + c = getInnerNodeNumber T"
    using randomize_inv_count [OF d s inv] .
  show ?case
  proof (cases "zs = []")
    case True
    then have "c = getInnerNodeNumber T" using cnt by (simp add: frontier_nodes_def)
    moreover have "randomize_loop T rng k (map (Some \<circ> fst) zs) c os rk = Some (Inr (os, rk))"
      using True by (subst randomize_loop.simps) simp
    ultimately show ?thesis using inv True by simp
  next
    case False
    define i where "i = rng k mod length zs"
    have i: "i < length zs" using False by (simp add: i_def)
    obtain n ns where z: "zs ! i = (n, ns)" by (cases "zs ! i") auto
    have ent: "map (Some \<circ> fst) zs ! i = Some n" using i z by simp
    show ?thesis
    proof (cases "left (node T n)")
      case None
      let ?zs' = "butlast (zs[i := last zs])"
      from randomize_inv_leaf [OF inv i z None]
      have fr: "frontier_nodes zs = add_mset n (frontier_nodes ?zs')"
        and inv': "randomize_inv T all os0 rk0 ?zs' c os rk" by simp_all
      have m: "2 * size (frontier_nodes ?zs') + length ?zs'
          < 2 * size (frontier_nodes zs) + length zs"
        unfolding fr by simp
      have toAdd: "butlast ((map (Some \<circ> fst) zs)[i := last (map (Some \<circ> fst) zs)])
          = map (Some \<circ> fst) ?zs'"
        using False by (simp add: last_map map_update map_butlast)
      have "randomize_loop T rng k (map (Some \<circ> fst) zs) c os rk
          = randomize_loop T rng (k + 1) (map (Some \<circ> fst) ?zs') c os rk"
        apply (subst randomize_loop.simps)
        using False ent None unfolding toAdd [symmetric]
        apply (simp add: i_def [symmetric] Let_def)
        done
      then show ?thesis using less.hyps [OF m inv'] by simp
    next
      case (Some l)
      from randomize_inv_inner [OF d s inv i z Some] obtain r ls rs where
        r: "right (node T n) = Some r" and cI: "c < getInnerNodeNumber T"
        and nN: "n < getNodeNumber T"
        and fr: "frontier_nodes zs = add_mset n (frontier_nodes (zs[i := (l, ls)] @ [(r, rs)]))"
        and inv': "randomize_inv T all os0 rk0 (zs[i := (l, ls)] @ [(r, rs)]) (c + 1)
            (os[c := n]) (rk[n := c])"
        by blast
      let ?zs' = "zs[i := (l, ls)] @ [(r, rs)]"
      have m: "2 * size (frontier_nodes ?zs') + length ?zs'
          < 2 * size (frontier_nodes zs) + length zs"
        unfolding fr by simp
      have len: "length os = getNodeNumber T" "length rk = getNodeNumber T"
        using randomize_invD(1,2) [OF inv] by simp_all
      obtain x where x: "x \<in># mset all" "\<not> internal T x" using lf by auto
      have "getInnerNodeNumber T < size (mset all)"
        using size_filter_less [of x "mset all" "internal T", OF x] inner_count [OF d s] by simp
      moreover have "size (mset all) = length (tree_nodes T)"
        using d s by (metis card_lessThan distinct_card size_mset)
      ultimately have IN: "getInnerNodeNumber T < getNodeNumber T"
        by (simp add: getNodeNumber_def)
      then have cN: "c < length os" using cI len by simp
      have "c + 1 < 2 ^ 32" using cI IN b by (simp add: getNodeNumber_def)
      then have md: "(c + 1) mod 2 ^ 32 = c + 1" by simp
      have toAdd: "(map (Some \<circ> fst) zs)[i := Some l] @ [right (node T n)]
          = map (Some \<circ> fst) ?zs'"
        using r by (simp add: map_update)
      have "randomize_loop T rng k (map (Some \<circ> fst) zs) c os rk
          = randomize_loop T rng (k + 1) ((map (Some \<circ> fst) zs)[i := Some l] @ [right (node T n)])
              ((c + 1) mod 2 ^ 32) (os[c := n]) (rk[n := c])"
        apply (subst randomize_loop.simps)
        using False ent Some cN nN len
        apply (simp add: i_def [symmetric] Let_def)
        done
      also have "\<dots> = randomize_loop T rng (k + 1) (map (Some \<circ> fst) ?zs') (c + 1)
          (os[c := n]) (rk[n := c])"
        by (simp only: toAdd md)
      finally show ?thesis using less.hyps [OF m inv'] by simp
    qed
  qed
qed

lemma randomize_inv_final:
  assumes dt: "fromBL t" and i: "DatedTree_inv t"
    and d: "distinct all" and s: "set all = {..<length (tree_nodes (rootedTree t))}"
    and inv: "randomize_inv (rootedTree t) all (orderedSpeciations t) (ranks t) []
        (getInnerNodeNumber (rootedTree t)) os' rk'"
  shows "DatedTree_inv (t\<lparr>orderedSpeciations := os', ranks := rk'\<rparr>)"
proof -
  let ?T = "rootedTree t"
  let ?N = "getNodeNumber ?T" and ?I = "getInnerNodeNumber ?T"
  have wf: "wf_tree ?T" using i by (simp add: DatedTree_inv_def)
  have len: "length os' = ?N" "length rk' = ?N" using randomize_invD(1,2) [OF inv] by simp_all
  have IN: "?I \<le> ?N" by (simp add: getInnerNodeNumber_def getNodeNumber_def)
  have ltk: "length (take ?I os') = ?I" using len IN by simp
  have ms: "mset (take ?I os') = filter_mset (internal ?T) (mset all)"
    using randomize_invD(5) [OF inv] by (simp add: frontier_nodes_def)
  have V: "\<exists>j<?I. os' ! j = n" if "n < ?N" "internal ?T n" for n
  proof -
    have "n \<in> set all" using that(1) unfolding s by (simp add: getNodeNumber_def)
    then have "n \<in># filter_mset (internal ?T) (mset all)" using that(2) by simp
    then have "n \<in> set (take ?I os')" unfolding ms [symmetric] by simp
    then obtain j where "j < length (take ?I os')" "take ?I os' ! j = n"
      unfolding in_set_conv_nth by blast
    then show ?thesis unfolding ltk by (intro exI [of _ j]) simp
  qed
  have W: "internal ?T (os' ! j)" if "j < ?I" for j
  proof -
    have "take ?I os' ! j \<in> set (take ?I os')" using that ltk by (metis nth_mem)
    then have "os' ! j \<in># mset (take ?I os')" using that by simp
    then show ?thesis unfolding ms by simp
  qed
  have R: "rk' ! (os' ! j) = j" if "j < ?I" for j using randomize_invD(7) [OF inv that] .
  have old: "\<And>k. k < ?N \<Longrightarrow> internal ?T (orderedSpeciations t ! k) = (k < ?I)"
    using dt i by (simp add: DatedTree_inv_def internal_def)
  have L: "?I \<le> rk' ! n \<and> rk' ! n < ?N \<and> os' ! (rk' ! n) = n"
    if n: "n < ?N" "\<not> internal ?T n" for n
  proof -
    have e: "rk' ! n = ranks t ! n" using randomize_invD(9) [OF inv n(2)] .
    have k: "ranks t ! n < ?N" "orderedSpeciations t ! (ranks t ! n) = n"
      using inv_ranks [OF i n(1)] by simp_all
    have "\<not> ranks t ! n < ?I" using old [OF k(1)] k(2) n(2) by simp
    then have g: "?I \<le> ranks t ! n" by simp
    have "os' ! (ranks t ! n) = orderedSpeciations t ! (ranks t ! n)"
      using randomize_invD(8) [OF inv g] .
    then show ?thesis using e g k by simp
  qed
  have p3: "\<forall>n < ?N. rk' ! n < ?N \<and> os' ! (rk' ! n) = n"
  proof (intro allI impI)
    fix n assume n: "n < ?N"
    show "rk' ! n < ?N \<and> os' ! (rk' ! n) = n"
    proof (cases "internal ?T n")
      case True
      from V [OF n True] obtain j where j: "j < ?I" "os' ! j = n" by blast
      then have "rk' ! n = j" using R [OF j(1)] by simp
      then show ?thesis using j IN by simp
    next
      case False
      then show ?thesis using L [OF n] by simp
    qed
  qed
  have p4: "\<forall>c < ?N. \<forall>p. parent (node ?T c) = Some p \<longrightarrow> rk' ! p < rk' ! c"
  proof (intro allI impI)
    fix c p assume c: "c < ?N" and par: "parent (node ?T c) = Some p"
    have pN: "p < ?N" using parent_valid [OF wf c par] .
    have pi: "internal ?T p" using parent_internal [OF wf c par] .
    from V [OF pN pi] obtain jp where jp: "jp < ?I" "os' ! jp = p" by blast
    have rp: "rk' ! p = jp" using R [OF jp(1)] jp(2) by simp
    show "rk' ! p < rk' ! c"
    proof (cases "internal ?T c")
      case True
      from V [OF c True] obtain jc where jc: "jc < ?I" "os' ! jc = c" by blast
      have rc: "rk' ! c = jc" using R [OF jc(1)] jc(2) by simp
      have "parent (node ?T (os' ! jc)) = Some p" using par jc(2) by simp
      from randomize_invD(10) [OF inv jc(1) this] obtain j' where j': "j' < jc" "os' ! j' = p"
        by blast
      then have "j' < ?I" using jc(1) by simp
      then have "rk' ! p = j'" using R [of j'] j'(2) by simp
      then show ?thesis using rc j'(1) by simp
    next
      case False
      then show ?thesis using L [OF c] rp jp(1) by simp
    qed
  qed
  have p5: "\<forall>k < ?N. (left (node ?T (os' ! k)) \<noteq> None) = (k < ?I)"
  proof (intro allI impI)
    fix k assume k: "k < ?N"
    show "(left (node ?T (os' ! k)) \<noteq> None) = (k < ?I)"
    proof (cases "k < ?I")
      case True
      then show ?thesis using W [OF True] by (simp add: internal_def)
    next
      case False
      then have "os' ! k = orderedSpeciations t ! k" using randomize_invD(8) [OF inv, of k] by simp
      then show ?thesis using old [OF k] False by (simp add: internal_def)
    qed
  qed
  have root: "left (node ?T (getRoot ?T)) \<noteq> None" using dt i by (simp add: DatedTree_inv_def)
  show ?thesis
    unfolding DatedTree_inv_def using wf len p3 p4 p5 root by simp
qed

lemma randomize_dated:
  assumes dt: "fromBL t" and i: "DatedTree_inv t"
  shows "\<exists>t'. randomize rng t = Some (Inr t') \<and> fromBL t' \<and> DatedTree_inv t' \<and>
    rootedTree t' = rootedTree t"
proof -
  let ?T = "rootedTree t"
  have wf: "wf_tree ?T" using i by (simp add: DatedTree_inv_def)
  from wf_treeD(4) [OF wf] obtain all where all: "subtree (tree_nodes ?T) (tree_root ?T) all"
    "distinct all" "set all = {..<length (tree_nodes ?T)}" by blast
  from subtree_has_leaf [OF all(1)] have lf: "\<exists>x \<in> set all. \<not> internal ?T x"
    by (simp add: internal_def node_def)
  have "randomize_inv ?T all (orderedSpeciations t) (ranks t) [(tree_root ?T, all)] 0
      (orderedSpeciations t) (ranks t)"
  proof (rule randomize_invI)
    fix z p assume "z \<in> set [(tree_root ?T, all)]" "parent (node ?T (fst z)) = Some p"
    then show "\<exists>j<0. orderedSpeciations t ! j = p" using wf_treeD(3) [OF wf] by simp
  qed (use all(1) inv_lengths [OF i] in \<open>simp_all add: frontier_nodes_def\<close>)
  from randomize_loop_returns [OF all(2,3) wf_treeD(2) [OF wf] lf this, of rng 0]
  obtain os' rk' where r: "randomize_loop ?T rng 0 [Some (tree_root ?T)] 0
        (orderedSpeciations t) (ranks t) = Some (Inr (os', rk'))"
    and f: "randomize_inv ?T all (orderedSpeciations t) (ranks t) []
        (getInnerNodeNumber ?T) os' rk'"
    by auto
  have "randomize rng t = Some (Inr (t\<lparr>orderedSpeciations := os', ranks := rk'\<rparr>))"
    using dt r by (simp add: randomize_def getRoot_def)
  then show ?thesis using randomize_inv_final [OF dt i all(2,3) f] dt by simp
qed

lemma mutate_inv:
  assumes dt: "fromBL t" and i: "DatedTree_inv t"
  shows "\<exists>t'. mutate t m = Some (Inr t') \<and> fromBL t' \<and> DatedTree_inv t' \<and>
    rootedTree t' = rootedTree t"
proof (cases m)
  case (Move mv)
  from do_move_inv [OF dt i, of mv] obtain b t' where
    "do_move t mv = Inr (b, t')" "fromBL t'" "DatedTree_inv t'" "rootedTree t' = rootedTree t"
    by blast
  then show ?thesis using Move by simp
next
  case (Randomize rng)
  then show ?thesis using randomize_dated [OF dt i, of rng] by simp
qed

lemma mutations_inv:
  "fromBL t \<Longrightarrow> DatedTree_inv t \<Longrightarrow>
   \<exists>t'. mutations t ms = Some (Inr t') \<and> fromBL t' \<and> DatedTree_inv t' \<and>
     rootedTree t' = rootedTree t"
proof (induction ms arbitrary: t)
  case Nil
  then show ?case by simp
next
  case (Cons m ms)
  from mutate_inv [OF Cons.prems, of m] obtain t1 where
    s: "mutate t m = Some (Inr t1)" "fromBL t1" "DatedTree_inv t1" "rootedTree t1 = rootedTree t"
    by blast
  from Cons.IH [OF s(2,3)] s(1,4) show ?case by auto
qed

lemma mutate_undated: "\<not> fromBL t \<Longrightarrow> \<exists>e. mutate t m = Some (Inl e)"
proof (cases m)
  case (Move mv)
  assume "\<not> fromBL t"
  then show ?thesis using Move by (cases mv) (simp_all add: moveUp_def moveDown_def)
next
  case (Randomize rng)
  assume "\<not> fromBL t"
  then show ?thesis using Randomize by (simp add: randomize_def)
qed

lemma mutations_undated:
  assumes "\<not> fromBL t" "mutations t ms = Some (Inr t')"
  shows "t' = t"
proof (cases ms)
  case Nil
  then show ?thesis using assms(2) by simp
next
  case (Cons m ms')
  from mutate_undated [OF assms(1), of m] obtain e where "mutate t m = Some (Inl e)" by blast
  then show ?thesis using assms(2) Cons by simp
qed

text \<open>
  Claim C5: take the backup \<open>b = getBackup()\<close> of a tree that satisfies the
  invariants of the data model. In dated mode every sequence of \<^verbatim>\<open>moveUp\<close>,
  \<^verbatim>\<open>moveDown\<close> and \<^verbatim>\<open>randomize\<close> calls returns (whatever random numbers it draws);
  and after any such sequence that returns, \<^verbatim>\<open>restore(b)\<close> returns and gives the
  tree of the time of the backup: \<^verbatim>\<open>ranks\<close> is \<open>b\<close> and \<^verbatim>\<open>orderedSpeciations\<close> is what
  it was.
\<close>

theorem backup_restore_roundtrip:
  assumes "DatedTree_inv t"
  shows "(fromBL t \<longrightarrow> (\<exists>t'. mutations t ms = Some (Inr t'))) \<and>
    (\<forall>t'. mutations t ms = Some (Inr t') \<longrightarrow>
       (\<exists>t''. restore t' (getBackup t) = Inr t'' \<and> ranks t'' = getBackup t \<and>
          orderedSpeciations t'' = orderedSpeciations t \<and> t'' = t))"
proof (cases "fromBL t")
  case True
  from mutations_inv [OF True assms, of ms] obtain t1 where
    t1: "mutations t ms = Some (Inr t1)" "fromBL t1" "DatedTree_inv t1"
    "rootedTree t1 = rootedTree t"
    by blast
  have "restore t1 (getBackup t) = Inr t"
    using restore_backup [OF assms t1(3,4)] t1(2) True by simp
  then show ?thesis using t1(1) by (simp add: getBackup_def)
next
  case False
  have "restore t (getBackup t) = Inr t" using restore_backup [OF assms assms] by simp
  then show ?thesis using False mutations_undated [OF False] by (auto simp: getBackup_def)
qed

theorem backup_restore_roundtrip_witness:
  "DatedTree_inv example_dated \<and> fromBL example_dated \<and>
   (\<exists>t' t''. mutations example_dated
        [Move (MoveUp 2), Randomize (\<lambda>k. k), Move (MoveDown 1), Randomize (\<lambda>k. 7 * k + 3)]
        = Some (Inr t') \<and>
      restore t' (getBackup example_dated) = Inr t'' \<and>
      ranks t'' = [3, 4, 5, 6, 1, 2, 0] \<and> orderedSpeciations t'' = [6, 4, 5, 0, 1, 2, 3])"
proof -
  have e: "getBackup example_dated = [3, 4, 5, 6, 1, 2, 0]"
    "orderedSpeciations example_dated = [6, 4, 5, 0, 1, 2, 3]"
    by (simp_all add: getBackup_def example_dated_def)
  show ?thesis
    using backup_restore_roundtrip [OF example_inv,
        of "[Move (MoveUp 2), Randomize (\<lambda>k. k), Move (MoveDown 1), Randomize (\<lambda>k. 7 * k + 3)]"]
      example_inv example_fromBL
    unfolding e by metis
qed

lemma randomize_example:
  "randomize (\<lambda>k. k) example_dated =
     Some (Inr (example_dated\<lparr>orderedSpeciations := [6, 5, 4, 0, 1, 2, 3],
                               ranks := [3, 4, 5, 6, 2, 1, 0]\<rparr>))"
  by (simp add: randomize_def randomize_loop.simps example_dated_def example_tree_def getRoot_def node_def Let_def mod_Suc)

section \<open>Properties of the dating search\<close>











text \<open>
  The search on the example tree, with the negated rank of the right internal
  node as score: the first round accepts \<^verbatim>\<open>moveUp(2)\<close>, tries \<^verbatim>\<open>moveUp(2)\<close> again
  from rank 1 on and reverts it; the improvement is 1, not above 1, so the
  search ends after one round with the score \<open>-1\<close>.
\<close>

lemma optimizeDatesLocal_example:
  "optimizeDatesLocal (\<lambda>t. - real (ranks t ! 5)) (\<lambda>ll st. st\<lparr>bestLL := ll\<rparr>)
       (\<lambda>x y. x - y) example_dated (Some \<lparr>bestLL = - 5, farFromPlausible = False\<rparr>)
     = Some (Inr (- 1, example_dated\<lparr>orderedSpeciations := [6, 5, 4, 0, 1, 2, 3],
                                     ranks := [3, 4, 5, 6, 2, 1, 0]\<rparr>,
                  Some \<lparr>bestLL = - 1, farFromPlausible = False\<rparr>))"
  by (simp add: optimizeDatesLocal_def optimizeDatesLocal_rounds.simps
      optimizeDatesLocal_for.simps moveUp_def moveDown_def example_dated_def example_tree_def
      getInnerNodeNumber_def node_def Let_def)

section \<open>Properties of the root search\<close>

lemma score_in_scores: "computeLikelihood_of L t c = (ll, c') \<Longrightarrow> ll \<in> scores L"
  unfolding scores_def by (metis (mono_tags, lifting) case_prod_conv fst_conv rangeI)

lemma scores_above_less:
  assumes "finite (scores L)" "ll \<in> scores L" "b < ll"
  shows "scores_above L ll < scores_above L b"
proof -
  have "ll \<in> {x \<in> scores L. b < x}" using assms by simp
  moreover have "ll \<notin> {x \<in> scores L. ll < x}" by simp
  moreover have "{x \<in> scores L. ll < x} \<subseteq> {x \<in> scores L. b < x}" using assms(3) by auto
  ultimately have "{x \<in> scores L. ll < x} \<subset> {x \<in> scores L. b < x}" by blast
  moreover have "finite {x \<in> scores L. b < x}" using assms(1) by simp
  ultimately show ?thesis unfolding scores_above_def by (rule psubset_card_mono [rotated])
qed

lemma scores_above_mono:
  assumes "finite (scores L)" "b \<le> b1"
  shows "scores_above L b1 \<le> scores_above L b"
proof -
  have "{x \<in> scores L. b1 < x} \<subseteq> {x \<in> scores L. b < x}" using assms(2) by auto
  moreover have "finite {x \<in> scores L. b < x}" using assms(1) by simp
  ultimately show ?thesis unfolding scores_above_def by (rule card_mono [rotated])
qed

lemma pop_after_push:
  "popAndApplyRollback ((pushRollback ev)\<lparr>ev_current := c\<rparr>) = Inr ev"
  by (simp add: popAndApplyRollback_def pushRollback_def)

lemma restore_after_revert:
  assumes "revert_undoes L" "canChangeRoot L (st_root t) direction"
    and "st_root t2 = st_root (changeRoot L t direction)"
  shows "restoreDates (revertChangeRoot L t2 direction) (st_dating t) = t"
  using assms by (simp add: restoreDates_def revertChangeRoot_def changeRoot_def revert_undoes_def)

lemma optimizeDates_root:
  "optimizeDates L t c searchState thorough g = (t2, c2, searchState2, g2)
     \<Longrightarrow> st_root t2 = st_root t"
  by (auto simp: optimizeDates_def split: prod.splits)

lemma rootSearchAux_loop_returns:
  assumes H: "revert_undoes L" and F: "finite (scores L)"
  shows "length (movesHistory s) \<le> maxDepth \<Longrightarrow> movesHistory s \<noteq> [] \<Longrightarrow>
     \<exists>s'. rootSearchAux_loop L maxDepth moves b s = Some (Inr s') \<and>
          rs_tree s' = rs_tree s \<and> rs_evaluator s' = rs_evaluator s \<and>
          movesHistory s' = movesHistory s \<and> rs_bestLL s \<le> rs_bestLL s' \<and>
          (history_ok L root0 s \<and> best_ok L root0 s \<longrightarrow> best_ok L root0 s')"
proof (induction "3 * (3 * scores_above L b + (maxDepth + 1 - length (movesHistory s)))
                    + length moves"
       arbitrary: maxDepth moves b s rule: less_induct)
  case less
  note len = less.prems(1) and ne = less.prems(2)
  show ?case
  proof (cases moves)
    case Nil
    then show ?thesis by (subst rootSearchAux_loop.simps) simp
  next
    case (Cons d rest)
    show ?thesis
    proof (cases "canChangeRoot L (st_root (rs_tree s)) d")
      case False
      have eq: "rootSearchAux_loop L maxDepth moves b s = rootSearchAux_loop L maxDepth rest b s"
        by (subst rootSearchAux_loop.simps) (simp add: Cons False)
      have "3 * (3 * scores_above L b + (maxDepth + 1 - length (movesHistory s))) + length rest
            < 3 * (3 * scores_above L b + (maxDepth + 1 - length (movesHistory s))) + length moves"
        using Cons by simp
      from less.hyps [OF this len ne] show ?thesis unfolding eq .
    next
      case True
      define history1 where "history1 = movesHistory s @ [d]"
      define ev1 where "ev1 = pushRollback (rs_evaluator s)"
      define tree1 where "tree1 = changeRoot L (rs_tree s) d"
      obtain tree2 c2 searchState2 g2 where od:
        "optimizeDates L tree1 (ev_current ev1) (rs_searchState s)
           (\<not> farFromPlausible (rs_searchState s)) (rs_random s)
         = (tree2, c2, searchState2, g2)"
        by (metis prod_cases4)
      obtain ll c3 where cl: "computeLikelihood_of L tree2 c2 = (ll, c3)"
        by (metis surj_pair)
      define newMaxDepth where
        "newMaxDepth = (if ll > b then (length history1 + 2) mod 2 ^ 32 else maxDepth)"
      define b1 where "b1 = (if ll > b then ll else b)"
      define s1 where "s1 = s\<lparr>rs_tree := tree2, rs_evaluator := ev1\<lparr>ev_current := c3\<rparr>,
                              rs_searchState := searchState2, rs_random := g2,
                              movesHistory := history1\<rparr>"
      define s2 where "s2 = (if ll > rs_bestLL s1
                             then s1\<lparr>rs_bestLL := ll, bestMovesHistory := history1,
                                     bestDatedBackup := st_dating tree2\<rparr>
                             else s1)"
      define inner where
        "inner = (if length history1 > newMaxDepth then Some (Inr s2)
                  else rootSearchAux_loop L newMaxDepth
                         [last history1 mod 2, 2 + last history1 mod 2] b1 s2)"
      define continue where
        "continue = (\<lambda>returned. case returned of
             Inl e \<Rightarrow> Some (Inl e)
           | Inr s3 \<Rightarrow>
               (case popAndApplyRollback (rs_evaluator s3) of
                  Inl e \<Rightarrow> Some (Inl e)
                | Inr ev3 \<Rightarrow>
                    if movesHistory s3 = [] then Some (Inl OutOfBounds)
                    else rootSearchAux_loop L maxDepth rest b1
                           (s3\<lparr>rs_tree := restoreDates (revertChangeRoot L (rs_tree s3) d)
                                             (st_dating (rs_tree s)),
                               rs_evaluator := ev3,
                               movesHistory := butlast (movesHistory s3)\<rparr>)))"
      have step: "rootSearchAux_loop L maxDepth moves b s = Option.bind inner continue"
        by (subst rootSearchAux_loop.simps)
          (simp add: Cons True Let_def od [unfolded tree1_def ev1_def] cl inner_def continue_def
             s2_def s1_def b1_def newMaxDepth_def history1_def ev1_def
             cong: if_cong sum.case_cong)
      have s2_tree: "rs_tree s2 = tree2"
        and s2_ev: "rs_evaluator s2 = ev1\<lparr>ev_current := c3\<rparr>"
        and s2_hist: "movesHistory s2 = history1"
        and s2_ll: "rs_bestLL s \<le> rs_bestLL s2"
        by (simp_all add: s2_def s1_def)
      have root2: "st_root tree2 = st_root tree1"
        using od by (rule optimizeDates_root)
      have root1: "st_root tree1 = rootAfterChange L (st_root (rs_tree s)) d"
        by (simp add: tree1_def changeRoot_def)
      have s2_ok: "best_ok L root0 s2" if ok: "history_ok L root0 s" "best_ok L root0 s"
      proof (cases "ll > rs_bestLL s1")
        case False
        then have "bestMovesHistory s2 = bestMovesHistory s" "bestDatedBackup s2 = bestDatedBackup s"
          "rs_bestLL s2 = rs_bestLL s"
          by (simp_all add: s2_def s1_def)
        then show ?thesis using ok(2) by (simp add: best_ok_def)
      next
        case gt: True
        then have b2: "bestMovesHistory s2 = history1" "bestDatedBackup s2 = st_dating tree2"
          "rs_bestLL s2 = ll"
          by (simp_all add: s2_def s1_def)
        have "foldl (rootAfterChange L) root0 (tl history1) = st_root tree2"
          using ok(1) ne by (simp add: history1_def history_ok_def root2 root1)
        then have "\<lparr>st_root = foldl (rootAfterChange L) root0 (tl (bestMovesHistory s2)),
                    st_dating = bestDatedBackup s2\<rparr> = tree2"
          by (simp add: b2)
        then have "fst (computeLikelihood_of L
              \<lparr>st_root = foldl (rootAfterChange L) root0 (tl (bestMovesHistory s2)),
               st_dating = bestDatedBackup s2\<rparr> c2) = rs_bestLL s2"
          by (simp add: cl b2)
        then show ?thesis unfolding best_ok_def by blast
      qed
      have s2_hok: "history_ok L root0 s2" if ok: "history_ok L root0 s"
        using ok ne by (simp add: history_ok_def s2_tree s2_hist history1_def root2 root1)
      have inner_ok: "\<exists>s3. inner = Some (Inr s3) \<and> rs_tree s3 = rs_tree s2 \<and>
          rs_evaluator s3 = rs_evaluator s2 \<and> movesHistory s3 = movesHistory s2 \<and>
          rs_bestLL s2 \<le> rs_bestLL s3 \<and>
          (history_ok L root0 s2 \<and> best_ok L root0 s2 \<longrightarrow> best_ok L root0 s3)"
      proof (cases "length history1 > newMaxDepth")
        case True
        then show ?thesis by (simp add: inner_def)
      next
        case False
        have in_eq: "inner = rootSearchAux_loop L newMaxDepth
                         [last history1 mod 2, 2 + last history1 mod 2] b1 s2"
          using False by (simp add: inner_def)
        have len2: "length (movesHistory s2) \<le> newMaxDepth" using False by (simp add: s2_hist)
        have ne2: "movesHistory s2 \<noteq> []" by (simp add: s2_hist history1_def)
        have lh: "length (movesHistory s2) = length (movesHistory s) + 1"
          by (simp add: s2_hist history1_def)
        have "3 * scores_above L b1 + (newMaxDepth + 1 - length (movesHistory s2))
              < 3 * scores_above L b + (maxDepth + 1 - length (movesHistory s))"
        proof (cases "ll > b")
          case True
          have "ll \<in> scores L" using cl by (rule score_in_scores)
          then have "scores_above L ll < scores_above L b"
            using F True by (simp add: scores_above_less)
          moreover have "newMaxDepth \<le> length (movesHistory s2) + 2"
            using True by (simp add: newMaxDepth_def s2_hist)
          moreover have "b1 = ll" using True by (simp add: b1_def)
          ultimately show ?thesis using len by simp
        next
          case False
          then have "b1 = b" "newMaxDepth = maxDepth" by (simp_all add: b1_def newMaxDepth_def)
          then show ?thesis using len lh by simp
        qed
        then have "3 * (3 * scores_above L b1 + (newMaxDepth + 1 - length (movesHistory s2)))
                     + length [last history1 mod 2, 2 + last history1 mod 2]
              < 3 * (3 * scores_above L b + (maxDepth + 1 - length (movesHistory s)))
                     + length moves"
          by simp
        from less.hyps [OF this len2 ne2] show ?thesis unfolding in_eq .
      qed
      then obtain s3 where in3: "inner = Some (Inr s3)"
        and s3_tree: "rs_tree s3 = tree2"
        and s3_ev: "rs_evaluator s3 = ev1\<lparr>ev_current := c3\<rparr>"
        and s3_hist: "movesHistory s3 = history1"
        and s3_ll: "rs_bestLL s2 \<le> rs_bestLL s3"
        and s3_ok: "history_ok L root0 s2 \<and> best_ok L root0 s2 \<longrightarrow> best_ok L root0 s3"
        unfolding s2_tree s2_ev s2_hist by blast
      define s4 where
        "s4 = s3\<lparr>rs_tree := rs_tree s, rs_evaluator := rs_evaluator s,
                 movesHistory := movesHistory s\<rparr>"
      have tree3: "restoreDates (revertChangeRoot L tree2 d) (st_dating (rs_tree s)) = rs_tree s"
        using H True root2 unfolding tree1_def by (rule restore_after_revert)
      have pop: "popAndApplyRollback (ev1\<lparr>ev_current := c3\<rparr>) = Inr (rs_evaluator s)"
        unfolding ev1_def by (rule pop_after_push)
      have step2: "rootSearchAux_loop L maxDepth moves b s = rootSearchAux_loop L maxDepth rest b1 s4"
        unfolding step in3
        by (simp add: continue_def s3_tree s3_ev s3_hist tree3 pop history1_def s4_def)
      have s4_facts: "rs_tree s4 = rs_tree s" "rs_evaluator s4 = rs_evaluator s"
        "movesHistory s4 = movesHistory s" "rs_bestLL s4 = rs_bestLL s3"
        by (simp_all add: s4_def)
      have s4_best: "best_ok L root0 s4 \<longleftrightarrow> best_ok L root0 s3"
        by (simp add: best_ok_def s4_def)
      have s4_hist: "history_ok L root0 s4 \<longleftrightarrow> history_ok L root0 s"
        by (simp add: history_ok_def s4_def)
      have "b \<le> b1" by (simp add: b1_def)
      then have "scores_above L b1 \<le> scores_above L b" using F by (simp add: scores_above_mono)
      then have "3 * (3 * scores_above L b1 + (maxDepth + 1 - length (movesHistory s4)))
                   + length rest
            < 3 * (3 * scores_above L b + (maxDepth + 1 - length (movesHistory s)))
                   + length moves"
        using Cons by (simp add: s4_facts)
      from less.hyps [OF this] len ne
      obtain s' where r: "rootSearchAux_loop L maxDepth rest b1 s4 = Some (Inr s')"
        and r_tree: "rs_tree s' = rs_tree s4" and r_ev: "rs_evaluator s' = rs_evaluator s4"
        and r_hist: "movesHistory s' = movesHistory s4" and r_ll: "rs_bestLL s4 \<le> rs_bestLL s'"
        and r_ok: "history_ok L root0 s4 \<and> best_ok L root0 s4 \<longrightarrow> best_ok L root0 s'"
        unfolding s4_facts(3) by blast
      have "rs_bestLL s \<le> rs_bestLL s'" using s2_ll s3_ll r_ll by (simp add: s4_facts)
      moreover have "best_ok L root0 s'" if "history_ok L root0 s" "best_ok L root0 s"
        using that r_ok s3_ok s2_ok s2_hok s4_best s4_hist by blast
      ultimately show ?thesis
        unfolding step2 using r r_tree r_ev r_hist by (simp add: s4_facts)
    qed
  qed
qed

lemma foldl_changeRoot_root:
  "st_root (foldl (changeRoot L) t ms) = foldl (rootAfterChange L) (st_root t) ms"
  by (induction ms arbitrary: t) (simp_all add: changeRoot_def)

lemma rootSearchAux_returns:
  assumes H: "revert_undoes L" and F: "finite (scores L)" and ne: "movesHistory s \<noteq> []"
  shows "\<exists>s'. rootSearchAux L maxDepth b s = Some (Inr s') \<and>
          rs_tree s' = rs_tree s \<and> rs_evaluator s' = rs_evaluator s \<and>
          movesHistory s' = movesHistory s \<and> rs_bestLL s \<le> rs_bestLL s' \<and>
          (history_ok L root0 s \<and> best_ok L root0 s \<longrightarrow> best_ok L root0 s')"
proof (cases "length (movesHistory s) > maxDepth")
  case True
  then show ?thesis by (simp add: rootSearchAux_def)
next
  case False
  then have len: "length (movesHistory s) \<le> maxDepth" by simp
  have eq: "rootSearchAux L maxDepth b s = rootSearchAux_loop L maxDepth
             [last (movesHistory s) mod 2, 2 + last (movesHistory s) mod 2] b s"
    using False ne by (simp add: rootSearchAux_def)
  show ?thesis unfolding eq using H F len ne by (rule rootSearchAux_loop_returns)
qed

lemma example_layer_reverts: "revert_undoes example_layer"
  by (simp add: revert_undoes_def example_layer_def)

lemma example_layer_scores: "finite (scores example_layer)"
proof -
  have "scores example_layer \<subseteq> {0, 1}"
    by (auto simp: scores_def example_layer_def split: if_splits)
  then show ?thesis by (rule finite_subset) simp
qed

text \<open>
  Claim C1: when \<^verbatim>\<open>revertChangeRoot\<close> undoes an allowed \<^verbatim>\<open>changeRoot\<close> and the evaluator
  has finitely many likelihoods (as doubles have), \<^verbatim>\<open>rootSearch\<close> returns; the
  returned \<^verbatim>\<open>bestLL\<close> is at least the likelihood computed at entry; on return the
  root of the tree is the one reached from the root at entry by the moves of
  \<^verbatim>\<open>bestMovesHistory\<close> from index 1 on, its dating is \<^verbatim>\<open>bestDatedBackup\<close>, and
  \<^verbatim>\<open>bestLL\<close> is a likelihood of this tree; the rollback stack of the evaluator is the
  one at entry. Every call of \<^verbatim>\<open>rootSearchAux\<close> on a non-empty history returns with
  the tree (root and dating), the evaluator (state and rollback stack) and
  \<^verbatim>\<open>movesHistory\<close> that it was called with.
\<close>

theorem rootSearch_returns_best:
  assumes "revert_undoes L" and "finite (scores L)"
  shows "(\<exists>ll s'. rootSearch L maxDepth speciesTree ev searchState g = Some (Inr (ll, s')) \<and>
       fst (computeLikelihood_of L speciesTree (ev_current ev)) \<le> ll \<and>
       rs_bestLL s' = ll \<and>
       st_root (rs_tree s')
         = foldl (rootAfterChange L) (st_root speciesTree) (tl (bestMovesHistory s')) \<and>
       st_dating (rs_tree s') = bestDatedBackup s' \<and>
       (\<exists>c. fst (computeLikelihood_of L (rs_tree s') c) = ll) \<and>
       ev_rollbacks (rs_evaluator s') = ev_rollbacks ev) \<and>
    (\<forall>depth bestLLStack s. movesHistory s \<noteq> [] \<longrightarrow>
       (\<exists>s1. rootSearchAux L depth bestLLStack s = Some (Inr s1) \<and>
          rs_tree s1 = rs_tree s \<and> rs_evaluator s1 = rs_evaluator s \<and>
          movesHistory s1 = movesHistory s))"
proof
  let ?root0 = "st_root speciesTree"
  obtain initialLL c1 where cl: "computeLikelihood_of L speciesTree (ev_current ev) = (initialLL, c1)"
    by (metis surj_pair)
  define s0 :: "('a, 'b, 'c) root_search" where
    "s0 = \<lparr>rs_tree = speciesTree, rs_evaluator = ev\<lparr>ev_current := c1\<rparr>,
           rs_searchState = searchState, rs_random = g, movesHistory = [1],
           bestMovesHistory = [], bestDatedBackup = st_dating speciesTree,
           rs_bestLL = initialLL\<rparr>"
  have h0: "history_ok L ?root0 s0" by (simp add: history_ok_def s0_def)
  have "\<lparr>st_root = ?root0, st_dating = st_dating speciesTree\<rparr> = speciesTree" by simp
  then have "fst (computeLikelihood_of L \<lparr>st_root = ?root0, st_dating = st_dating speciesTree\<rparr>
               (ev_current ev)) = initialLL"
    by (simp only: cl fst_conv)
  then have b0: "best_ok L ?root0 s0" unfolding best_ok_def by (auto simp: s0_def)
  have ne0: "movesHistory s0 \<noteq> []" by (simp add: s0_def)
  from rootSearchAux_returns [OF assms ne0, of maxDepth initialLL ?root0] h0 b0
  obtain s1 where a1: "rootSearchAux L maxDepth initialLL s0 = Some (Inr s1)"
    and t1: "rs_tree s1 = speciesTree" and e1: "rs_evaluator s1 = ev\<lparr>ev_current := c1\<rparr>"
    and m1: "movesHistory s1 = [1]" and l1: "initialLL \<le> rs_bestLL s1"
    and b1: "best_ok L ?root0 s1"
    by (auto simp: s0_def)
  define s1' where "s1' = s1\<lparr>movesHistory := (movesHistory s1)[0 := 0]\<rparr>"
  have m1': "movesHistory s1' = [0]" by (simp add: s1'_def m1)
  have ne1: "movesHistory s1' \<noteq> []" by (simp add: m1')
  have h1': "history_ok L ?root0 s1'" by (simp add: history_ok_def m1') (simp add: s1'_def t1)
  have b1': "best_ok L ?root0 s1'" using b1 by (simp add: best_ok_def s1'_def)
  from rootSearchAux_returns [OF assms ne1, of maxDepth initialLL ?root0] h1' b1'
  obtain s2 where a2: "rootSearchAux L maxDepth initialLL s1' = Some (Inr s2)"
    and t2: "rs_tree s2 = speciesTree" and e2: "rs_evaluator s2 = ev\<lparr>ev_current := c1\<rparr>"
    and l2: "rs_bestLL s1 \<le> rs_bestLL s2" and b2: "best_ok L ?root0 s2"
    by (auto simp: s1'_def t1 e1)
  define tree4 where
    "tree4 = restoreDates (foldl (changeRoot L) (rs_tree s2) (tl (bestMovesHistory s2)))
               (bestDatedBackup s2)"
  have r: "rootSearch L maxDepth speciesTree ev searchState g
             = Some (Inr (rs_bestLL s2, s2\<lparr>rs_tree := tree4\<rparr>))"
    using a1 a2 m1 by (simp add: rootSearch_def cl Let_def s0_def s1'_def tree4_def)
  have root4: "st_root tree4 = foldl (rootAfterChange L) ?root0 (tl (bestMovesHistory s2))"
    by (simp add: tree4_def restoreDates_def foldl_changeRoot_root t2)
  have dating4: "st_dating tree4 = bestDatedBackup s2"
    by (simp add: tree4_def restoreDates_def)
  have "tree4 = \<lparr>st_root = foldl (rootAfterChange L) ?root0 (tl (bestMovesHistory s2)),
                 st_dating = bestDatedBackup s2\<rparr>"
    using root4 dating4 by simp
  then have ex: "\<exists>c. fst (computeLikelihood_of L tree4 c) = rs_bestLL s2"
    using b2 by (simp add: best_ok_def)
  show "\<exists>ll s'. rootSearch L maxDepth speciesTree ev searchState g = Some (Inr (ll, s')) \<and>
       fst (computeLikelihood_of L speciesTree (ev_current ev)) \<le> ll \<and>
       rs_bestLL s' = ll \<and>
       st_root (rs_tree s')
         = foldl (rootAfterChange L) (st_root speciesTree) (tl (bestMovesHistory s')) \<and>
       st_dating (rs_tree s') = bestDatedBackup s' \<and>
       (\<exists>c. fst (computeLikelihood_of L (rs_tree s') c) = ll) \<and>
       ev_rollbacks (rs_evaluator s') = ev_rollbacks ev"
    using r l1 l2 root4 dating4 ex by (simp add: cl e2)
next
  show "\<forall>depth bestLLStack s. movesHistory s \<noteq> [] \<longrightarrow>
       (\<exists>s1. rootSearchAux L depth bestLLStack s = Some (Inr s1) \<and>
          rs_tree s1 = rs_tree s \<and> rs_evaluator s1 = rs_evaluator s \<and>
          movesHistory s1 = movesHistory s)"
  proof (intro allI impI)
    fix depth bestLLStack and s :: "('a, 'b, 'c) root_search"
    assume ne: "movesHistory s \<noteq> []"
    from rootSearchAux_returns [OF assms ne, of depth bestLLStack undefined]
    show "\<exists>s1. rootSearchAux L depth bestLLStack s = Some (Inr s1) \<and>
          rs_tree s1 = rs_tree s \<and> rs_evaluator s1 = rs_evaluator s \<and>
          movesHistory s1 = movesHistory s"
      by blast
  qed
qed

theorem rootSearch_returns_best_witness:
  "revert_undoes example_layer \<and> finite (scores example_layer) \<and>
   (\<exists>ll s'. rootSearch example_layer 1 \<lparr>st_root = 0, st_dating = [0, 1]\<rparr>
               \<lparr>ev_current = 0, ev_rollbacks = []\<rparr>
               \<lparr>bestLL = 0, farFromPlausible = False\<rparr> () = Some (Inr (ll, s')) \<and>
       0 \<le> ll \<and> rs_bestLL s' = ll \<and>
       st_root (rs_tree s') = foldl (rootAfterChange example_layer) 0 (tl (bestMovesHistory s')) \<and>
       st_dating (rs_tree s') = bestDatedBackup s' \<and>
       (\<exists>c. fst (computeLikelihood_of example_layer (rs_tree s') c) = ll) \<and>
       ev_rollbacks (rs_evaluator s') = []) \<and>
   (\<exists>s1. rootSearchAux example_layer 1 0 example_search = Some (Inr s1) \<and>
      rs_tree s1 = rs_tree example_search \<and> rs_evaluator s1 = rs_evaluator example_search \<and>
      movesHistory s1 = movesHistory example_search)"
proof -
  have ne: "movesHistory example_search \<noteq> []" by (simp add: example_search_def)
  have ll0: "fst (computeLikelihood_of example_layer \<lparr>st_root = 0, st_dating = [0, 1]\<rparr> 0) = 0"
    by (simp add: example_layer_def)
  note best = rootSearch_returns_best [OF example_layer_reverts example_layer_scores,
      where maxDepth = 1 and speciesTree = "\<lparr>st_root = 0, st_dating = [0, 1]\<rparr>"
        and ev = "\<lparr>ev_current = 0, ev_rollbacks = []\<rparr>"
        and searchState = "\<lparr>bestLL = 0, farFromPlausible = False\<rparr>" and g = "()"]
  from best ll0 have search: "\<exists>ll s'. rootSearch example_layer 1 \<lparr>st_root = 0, st_dating = [0, 1]\<rparr>
               \<lparr>ev_current = 0, ev_rollbacks = []\<rparr>
               \<lparr>bestLL = 0, farFromPlausible = False\<rparr> () = Some (Inr (ll, s')) \<and>
       0 \<le> ll \<and> rs_bestLL s' = ll \<and>
       st_root (rs_tree s') = foldl (rootAfterChange example_layer) 0 (tl (bestMovesHistory s')) \<and>
       st_dating (rs_tree s') = bestDatedBackup s' \<and>
       (\<exists>c. fst (computeLikelihood_of example_layer (rs_tree s') c) = ll) \<and>
       ev_rollbacks (rs_evaluator s') = []"
    by simp
  from best ne have aux: "\<exists>s1. rootSearchAux example_layer 1 0 example_search = Some (Inr s1) \<and>
      rs_tree s1 = rs_tree example_search \<and> rs_evaluator s1 = rs_evaluator example_search \<and>
      movesHistory s1 = movesHistory example_search"
    by blast
  show ?thesis using example_layer_reverts example_layer_scores search aux by blast
qed

text \<open>
  The root search on the example layer with depth 1. The first search moves the
  root to 1 (likelihood 1, a new best, which extends the depth to 4), then to 2
  (likelihood 0), from where no move is allowed, and unwinds; the second search
  has no allowed move. The best history \<open>[1, 1]\<close> is replayed from index 1 on and
  the dating of the best root is put back. The evaluator has its state of after
  the first evaluation and an empty rollback stack.
\<close>

lemma rootSearch_example:
  "rootSearch example_layer 1 \<lparr>st_root = 0, st_dating = [0, 1]\<rparr>
       \<lparr>ev_current = 0, ev_rollbacks = []\<rparr> \<lparr>bestLL = 0, farFromPlausible = False\<rparr> ()
     = Some (Inr (1, \<lparr>rs_tree = \<lparr>st_root = 1, st_dating = [1, 0]\<rparr>,
                      rs_evaluator = \<lparr>ev_current = 1, ev_rollbacks = []\<rparr>,
                      rs_searchState = \<lparr>bestLL = 0, farFromPlausible = False\<rparr>,
                      rs_random = (),
                      movesHistory = [0],
                      bestMovesHistory = [1, 1],
                      bestDatedBackup = [1, 0],
                      rs_bestLL = 1\<rparr>))"
  by (simp add: rootSearch_def rootSearchAux_def rootSearchAux_loop.simps example_layer_def
      changeRoot_def revertChangeRoot_def restoreDates_def optimizeDates_def pushRollback_def
      popAndApplyRollback_def Let_def)

end
